theory Spec2Isabelle
  imports Main "HOL-Library.Word" "HOL-Library.Signed_Division" "HOL-Library.List_Lexorder"
    "HOL-Library.Code_Target_Numeral" "HOL-Library.Multiset"
begin

unbundle bit_operations_syntax

section \<open>Equihash: data model\<close>

text \<open>
  The embedding follows \<^verbatim>\<open>src/crypto/equihash.h\<close> and \<^verbatim>\<open>src/crypto/equihash.cpp\<close>.
  \<^verbatim>\<open>eh_index\<close> is \<^verbatim>\<open>uint32_t\<close>, \<^verbatim>\<open>eh_trunc\<close> is \<^verbatim>\<open>uint8_t\<close>, a hash buffer is a list of
  \<^verbatim>\<open>unsigned char\<close>. The field \<^verbatim>\<open>len\<close> of \<^verbatim>\<open>StepRow\<close> always equals the size of the buffer
  \<^verbatim>\<open>hash\<close> points to (every constructor, \<^verbatim>\<open>operator=\<close>, \<^verbatim>\<open>operator^=\<close> and \<^verbatim>\<open>TrimHash\<close>
  sets both together), so it is the length of the list.
\<close>

type_synonym eh_index = "32 word"
type_synonym eh_trunc = "8 word"
type_synonym byte = "8 word"

text \<open>
  The exceptions of the source: \<^verbatim>\<open>struct invalid_params\<close> and \<^verbatim>\<open>std::invalid_argument\<close>
  with its message. The third constructor stands for the behaviour the C++ standard leaves
  undefined (division by zero, a read past the end of a vector, an oversized shift) and
  the fourth for a failed \<^verbatim>\<open>assert\<close>.
\<close>

datatype error =
    invalid_params
  | invalid_argument string
  | undefined_behaviour
  | assertion_failed

text \<open>
  \<^verbatim>\<open>class StepRow\<close> with the index vector of its two subclasses: \<^verbatim>\<open>BasicStepRow\<close> carries
  \<^verbatim>\<open>std::vector<eh_index>\<close>, \<^verbatim>\<open>TruncatedStepRow\<close> carries \<^verbatim>\<open>std::vector<eh_trunc>\<close> and, in
  the \<^verbatim>\<open>.cpp\<close> file, a second vector \<^verbatim>\<open>full_indices\<close>.
\<close>

record 'i StepRow =
  hash :: "byte list"
  indices :: "'i list"

type_synonym BasicStepRow = "eh_index StepRow"

record TruncatedStepRow = "eh_trunc StepRow" +
  full_indices :: "eh_index list"

text \<open>\<^verbatim>\<open>class Equihash\<close>: the two \<^verbatim>\<open>unsigned int\<close> members \<^verbatim>\<open>n\<close> and \<^verbatim>\<open>k\<close>.\<close>

record Equihash =
  param_n :: "32 word"
  param_k :: "32 word"

text \<open>
  The base hash state is opaque to the solver: BLAKE2b lives in libsodium. What the
  solver uses of it is the digest of each leaf index, so a state is the function that
  sends an index and a byte position to that byte of the digest.
\<close>

type_synonym eh_HashState = "eh_index \<Rightarrow> nat \<Rightarrow> byte"

section \<open>Parameter validation and construction\<close>

text \<open>
  \<^verbatim>\<open>validate_params(int n, int k)\<close>. The arguments are C++ \<^verbatim>\<open>int\<close>s, here their values;
  \<^verbatim>\<open>/\<close> and \<^verbatim>\<open>%\<close> truncate towards zero (\<open>sdiv\<close>, \<open>smod\<close>). \<^verbatim>\<open>k+1\<close> cannot overflow,
  since \<^verbatim>\<open>k = INT_MAX\<close> has left through the first test; dividing by \<^verbatim>\<open>k+1 = 0\<close> is
  undefined.
\<close>

definition validate_params :: "int \<Rightarrow> int \<Rightarrow> error + unit" where
  "validate_params n k =
     (if k \<ge> n then Inl invalid_params
      else if n smod 8 \<noteq> 0 then Inl invalid_params
      else if k + 1 = 0 then Inl undefined_behaviour
      else if (n sdiv (k + 1)) smod 8 \<noteq> 0 then Inl invalid_params
      else Inr ())"

text \<open>
  \<^verbatim>\<open>Equihash::Equihash(unsigned int n, unsigned int k)\<close> stores both members and calls
  \<^verbatim>\<open>validate_params(n, k)\<close>, which converts each \<^verbatim>\<open>unsigned int\<close> to \<^verbatim>\<open>int\<close>: the
  two's-complement reading \<open>sint\<close>.
\<close>

definition Equihash_ctor :: "32 word \<Rightarrow> 32 word \<Rightarrow> error + Equihash" where
  "Equihash_ctor n k =
     (case validate_params (sint n) (sint k) of
        Inl e \<Rightarrow> Inl e
      | Inr _ \<Rightarrow> Inr \<lparr>param_n = n, param_k = k\<rparr>)"

definition CollisionBitLength :: "Equihash \<Rightarrow> nat" where
  "CollisionBitLength eh = unat (param_n eh div (param_k eh + 1))"

definition CollisionByteLength :: "Equihash \<Rightarrow> nat" where
  "CollisionByteLength eh = CollisionBitLength eh div 8"

text \<open>The invariants of the specification, on the unsigned values of the parameters.\<close>

definition params_invariant :: "32 word \<Rightarrow> 32 word \<Rightarrow> bool" where
  "params_invariant n k \<longleftrightarrow>
     unat k < unat n \<and> unat n mod 8 = 0 \<and> (unat n div (unat k + 1)) mod 8 = 0"

section \<open>Row operations\<close>

text \<open>
  \<^verbatim>\<open>StepRow::StepRow(n, base_state, i)\<close>: a buffer of \<^verbatim>\<open>n/8\<close> bytes holding the digest of
  the index.
\<close>

definition leaf_hash :: "32 word \<Rightarrow> eh_HashState \<Rightarrow> eh_index \<Rightarrow> byte list" where
  "leaf_hash n base_state i = map (base_state i) [0 ..< unat (n div 8)]"

definition BasicStepRow_ctor :: "32 word \<Rightarrow> eh_HashState \<Rightarrow> eh_index \<Rightarrow> BasicStepRow" where
  "BasicStepRow_ctor n base_state i = \<lparr>hash = leaf_hash n base_state i, indices = [i]\<rparr>"

text \<open>
  \<^verbatim>\<open>TruncatedStepRow::TruncatedStepRow(n, base_state, i, ilen)\<close>:
  \<^verbatim>\<open>eh_trunc itrunc { (i >> (ilen - 8)) & 0xff }\<close>. \<^verbatim>\<open>ilen\<close> is an \<^verbatim>\<open>unsigned int\<close>, so
  \<^verbatim>\<open>ilen - 8\<close> wraps below 8, to a shift count of at least \<open>2^32 - 8\<close>. Shifting the 32-bit
  \<^verbatim>\<open>i\<close> by 32 or more is undefined: that is the case for \<^verbatim>\<open>ilen\<close> below 8 and from 40
  on.
\<close>

definition TruncatedStepRow_ctor ::
  "32 word \<Rightarrow> eh_HashState \<Rightarrow> eh_index \<Rightarrow> 32 word \<Rightarrow> error + TruncatedStepRow" where
  "TruncatedStepRow_ctor n base_state i ilen =
     (if 32 \<le> unat (ilen - 8) then Inl undefined_behaviour
      else Inr \<lparr>hash = leaf_hash n base_state i,
                indices = [ucast (drop_bit (unat (ilen - 8)) i AND 0xff)],
                full_indices = [i]\<rparr>)"

text \<open>
  \<^verbatim>\<open>BasicStepRow::operator^=\<close> mutates \<^verbatim>\<open>*this\<close> or throws. The model returns the row
  \<^verbatim>\<open>*this\<close> is left as, and the exception if one was thrown.
\<close>

definition xor_bytes :: "byte list \<Rightarrow> byte list \<Rightarrow> byte list" where
  "xor_bytes h g = map (\<lambda>i. h ! i XOR g ! i) [0 ..< length h]"

definition BasicStepRow_xor_assign ::
  "BasicStepRow \<Rightarrow> BasicStepRow \<Rightarrow> BasicStepRow \<times> error option" where
  "BasicStepRow_xor_assign this a =
     (if length (hash a) \<noteq> length (hash this) then
        (this, Some (invalid_argument ''Hash length differs''))
      else if length (indices a) \<noteq> length (indices this) then
        (this, Some (invalid_argument ''Number of indices differs''))
      else
        (this\<lparr>hash := xor_bytes (hash this) (hash a),
              indices := indices this @ indices a\<rparr>, None))"

definition TruncatedStepRow_xor_assign ::
  "TruncatedStepRow \<Rightarrow> TruncatedStepRow \<Rightarrow> TruncatedStepRow \<times> error option" where
  "TruncatedStepRow_xor_assign this a =
     (if length (hash a) \<noteq> length (hash this) then
        (this, Some (invalid_argument ''Hash length differs''))
      else if length (indices a) \<noteq> length (indices this) then
        (this, Some (invalid_argument ''Number of indices differs''))
      else
        (this\<lparr>hash := xor_bytes (hash this) (hash a),
              indices := indices this @ indices a,
              full_indices := full_indices this @ full_indices a\<rparr>, None))"

text \<open>
  The friend \<^verbatim>\<open>operator^\<close> copies the operand with the smaller first index and applies
  \<^verbatim>\<open>operator^=\<close> to the copy; an exception leaves the expression without a value. Every
  row has at least one index (the constructors put one, \<^verbatim>\<open>operator^=\<close> only appends), so
  \<^verbatim>\<open>indices[0]\<close> is in range.
\<close>

definition raised :: "'a \<times> error option \<Rightarrow> error + 'a" where
  "raised r = (case snd r of Some e \<Rightarrow> Inl e | None \<Rightarrow> Inr (fst r))"

definition BasicStepRow_xor :: "BasicStepRow \<Rightarrow> BasicStepRow \<Rightarrow> error + BasicStepRow" where
  "BasicStepRow_xor a b =
     (if indices a ! 0 < indices b ! 0 then raised (BasicStepRow_xor_assign a b)
      else raised (BasicStepRow_xor_assign b a))"

definition TruncatedStepRow_xor ::
  "TruncatedStepRow \<Rightarrow> TruncatedStepRow \<Rightarrow> error + TruncatedStepRow" where
  "TruncatedStepRow_xor a b =
     (if indices a ! 0 < indices b ! 0 then raised (TruncatedStepRow_xor_assign a b)
      else raised (TruncatedStepRow_xor_assign b a))"

text \<open>
  \<^verbatim>\<open>StepRow::TrimHash(l)\<close> keeps the bytes from position \<^verbatim>\<open>l\<close> on; every call passes
  \<^verbatim>\<open>CollisionByteLength()\<close>. \<^verbatim>\<open>StepRow::IsZero\<close> ors all bytes together.
  \<^verbatim>\<open>HasCollision(a, b, l)\<close> compares the first \<^verbatim>\<open>l\<close> bytes. The source reads
  \<^verbatim>\<open>hash[i+l]\<close> and \<^verbatim>\<open>hash[j]\<close> without a bounds check. A row that the solvers or the
  verifier trim or compare has been trimmed at most \<open>k\<close> times before, and
  \<open>(k + 1) * l \<le> n div 8\<close> for \<open>l = (n div (k + 1)) div 8\<close>, so it still holds at least
  \<^verbatim>\<open>l\<close> bytes: the unsigned \<^verbatim>\<open>len - l\<close> does not wrap in any call, and the model
  subtracts on \<open>nat\<close>.
\<close>

definition TrimHash :: "nat \<Rightarrow> ('i, 'z) StepRow_scheme \<Rightarrow> ('i, 'z) StepRow_scheme" where
  "TrimHash l r = r\<lparr>hash := map (\<lambda>i. hash r ! (i + l)) [0 ..< length (hash r) - l]\<rparr>"

definition IsZero :: "('i, 'z) StepRow_scheme \<Rightarrow> bool" where
  "IsZero r \<longleftrightarrow> fold (\<lambda>b res. res OR b) (hash r) 0 = 0"

definition HasCollision ::
  "('i, 'z) StepRow_scheme \<Rightarrow> ('i, 'z) StepRow_scheme \<Rightarrow> nat \<Rightarrow> bool" where
  "HasCollision a b l = fold (\<lambda>j res. res \<and> hash a ! j = hash b ! j) [0 ..< l] True"

definition IndicesBefore :: "BasicStepRow \<Rightarrow> BasicStepRow \<Rightarrow> bool" where
  "IndicesBefore this a \<longleftrightarrow> indices this ! 0 < indices a ! 0"

section \<open>The distinct-index test\<close>

text \<open>
  The template \<^verbatim>\<open>DistinctIndices(a, b)\<close> sorts copies of both vectors (\<^verbatim>\<open>std::sort\<close> on
  integers: the result is the sorted list) and scans them together. The inner
  \<^verbatim>\<open>while (aSrt[i] < bSrt[j])\<close> either runs off the end of \<^verbatim>\<open>aSrt\<close> (the function
  returns true: \<open>None\<close>) or stops at a position. Every caller passes the index vectors
  of two rows, which are never empty, so \<^verbatim>\<open>aSrt[i]\<close> is in range: \<open>i < length aSrt\<close>
  holds whenever the loop is entered.
\<close>

function di_while :: "'a::linorder list \<Rightarrow> 'a \<Rightarrow> nat \<Rightarrow> nat option" where
  "di_while aSrt b i =
     (if i < length aSrt \<and> aSrt ! i < b then
        (if i + 1 = length aSrt then None else di_while aSrt b (i + 1))
      else Some i)"
  by pat_completeness auto
termination
  by (relation "measure (\<lambda>(aSrt, b, i). length aSrt - i)") auto

declare di_while.simps [simp del]

fun di_for :: "'a::linorder list \<Rightarrow> 'a list \<Rightarrow> nat \<Rightarrow> bool" where
  "di_for aSrt [] i = True"
| "di_for aSrt (b # bSrt) i =
     (case di_while aSrt b i of
        None \<Rightarrow> True
      | Some i' \<Rightarrow> if aSrt ! i' = b then False else di_for aSrt bSrt i')"

definition DistinctIndices :: "'a::linorder list \<Rightarrow> 'a list \<Rightarrow> bool" where
  "DistinctIndices a b = di_for (sort a) (sort b) 0"

text \<open>The friend overloads on rows pass the two index vectors.\<close>

definition DistinctIndices_rows ::
  "('i::linorder, 'z) StepRow_scheme \<Rightarrow> ('i, 'z) StepRow_scheme \<Rightarrow> bool" where
  "DistinctIndices_rows a b = DistinctIndices (indices a) (indices b)"

section \<open>The collision rounds\<close>

text \<open>
  \<^verbatim>\<open>BasicSolve\<close> and the first phase of \<^verbatim>\<open>OptimisedSolve\<close> hold the same loops, on
  \<^verbatim>\<open>BasicStepRow\<close> and on \<^verbatim>\<open>TruncatedStepRow\<close>; the second omits the distinct-index
  test. The loops are written once, over the row type, the test \<open>chk\<close> and the
  \<^verbatim>\<open>operator^\<close> \<open>xr\<close> of the row type.

  \<^verbatim>\<open>std::sort\<close> on rows compares whole hashes with \<^verbatim>\<open>memcmp\<close> and leaves the order of
  rows with equal hashes open, so the sorting function is a parameter \<open>srt\<close> of the
  solvers. The \<^verbatim>\<open>int\<close> cursors are natural numbers: they only count up, to at most the
  size of the table.

  A \<^verbatim>\<open>for\<close> loop whose body may throw: the first exception ends it.
\<close>

fun for_each :: "'a list \<Rightarrow> ('a \<Rightarrow> 's \<Rightarrow> error + 's) \<Rightarrow> 's \<Rightarrow> error + 's" where
  "for_each [] body s = Inr s"
| "for_each (x # xs) body s =
     (case body x s of Inl e \<Rightarrow> Inl e | Inr s' \<Rightarrow> for_each xs body s')"

text \<open>
  2b: \<^verbatim>\<open>while (i+j < X.size() && HasCollision(X[i], X[i+j], l)) j++\<close>.
\<close>

function find_run :: "('i, 'z) StepRow_scheme list \<Rightarrow> nat \<Rightarrow> nat \<Rightarrow> nat \<Rightarrow> nat" where
  "find_run X l i j =
     (if i + j < length X \<and> HasCollision (X ! i) (X ! (i + j)) l
      then find_run X l i (j + 1) else j)"
  by pat_completeness auto
termination
  by (relation "measure (\<lambda>(X, l, i, j). length X - (i + j))") auto

declare find_run.simps [simp del]

text \<open>
  2c: the body of the double loop, then the double loop over \<^verbatim>\<open>l < j - 1\<close> and
  \<^verbatim>\<open>l < m < j\<close>. \<^verbatim>\<open>Xc.push_back\<close> appends, \<^verbatim>\<open>Xc.back().TrimHash\<close> trims the new row.
\<close>

definition emit_tuple ::
  "(('i, 'z) StepRow_scheme \<Rightarrow> ('i, 'z) StepRow_scheme \<Rightarrow> bool) \<Rightarrow>
   (('i, 'z) StepRow_scheme \<Rightarrow> ('i, 'z) StepRow_scheme \<Rightarrow> error + ('i, 'z) StepRow_scheme) \<Rightarrow>
   nat \<Rightarrow> ('i, 'z) StepRow_scheme \<Rightarrow> ('i, 'z) StepRow_scheme \<Rightarrow>
   ('i, 'z) StepRow_scheme list \<Rightarrow> error + ('i, 'z) StepRow_scheme list" where
  "emit_tuple chk xr l a b Xc =
     (if chk a b then
        (case xr a b of Inl e \<Rightarrow> Inl e | Inr r \<Rightarrow> Inr (Xc @ [TrimHash l r]))
      else Inr Xc)"

definition calc_tuples ::
  "(('i, 'z) StepRow_scheme \<Rightarrow> ('i, 'z) StepRow_scheme \<Rightarrow> bool) \<Rightarrow>
   (('i, 'z) StepRow_scheme \<Rightarrow> ('i, 'z) StepRow_scheme \<Rightarrow> error + ('i, 'z) StepRow_scheme) \<Rightarrow>
   nat \<Rightarrow> ('i, 'z) StepRow_scheme list \<Rightarrow> nat \<Rightarrow> nat \<Rightarrow>
   ('i, 'z) StepRow_scheme list \<Rightarrow> error + ('i, 'z) StepRow_scheme list" where
  "calc_tuples chk xr l X i j Xc =
     for_each [0 ..< j - 1] (\<lambda>l'.
       for_each [l' + 1 ..< j] (\<lambda>m.
         emit_tuple chk xr l (X ! (i + l')) (X ! (i + m)))) Xc"

text \<open>
  2d and 2e: \<^verbatim>\<open>while (posFree < bound && Xc.size() > 0) { X[posFree++] = Xc.back();
  Xc.pop_back(); }\<close> with \<^verbatim>\<open>bound\<close> being \<^verbatim>\<open>i+j\<close> in 2d and \<^verbatim>\<open>X.size()\<close> in 2e.
\<close>

function store_tuples ::
  "'r list \<Rightarrow> nat \<Rightarrow> 'r list \<Rightarrow> nat \<Rightarrow> 'r list \<times> nat \<times> 'r list" where
  "store_tuples X posFree Xc bound =
     (if posFree < bound \<and> Xc \<noteq> [] then
        store_tuples (X[posFree := last Xc]) (posFree + 1) (butlast Xc) bound
      else (X, posFree, Xc))"
  by pat_completeness auto
termination
  by (relation "measure (\<lambda>(X, posFree, Xc, bound). length Xc)") auto

declare store_tuples.simps [simp del]

text \<open>
  One pass of the body of \<^verbatim>\<open>while (i < X.size() - 1)\<close> on the state
  \<open>(X, i, posFree, Xc)\<close>: 2b, 2c, 2d and \<^verbatim>\<open>i += j\<close>.
\<close>

definition scan_body ::
  "(('i, 'z) StepRow_scheme \<Rightarrow> ('i, 'z) StepRow_scheme \<Rightarrow> bool) \<Rightarrow>
   (('i, 'z) StepRow_scheme \<Rightarrow> ('i, 'z) StepRow_scheme \<Rightarrow> error + ('i, 'z) StepRow_scheme) \<Rightarrow>
   nat \<Rightarrow>
   ('i, 'z) StepRow_scheme list \<times> nat \<times> nat \<times> ('i, 'z) StepRow_scheme list \<Rightarrow>
   error + ('i, 'z) StepRow_scheme list \<times> nat \<times> nat \<times> ('i, 'z) StepRow_scheme list" where
  "scan_body chk xr l s =
     (case s of (X, i, posFree, Xc) \<Rightarrow>
        let j = find_run X l i 1 in
          (case calc_tuples chk xr l X i j Xc of
             Inl e \<Rightarrow> Inl e
           | Inr Xc' \<Rightarrow>
               (case store_tuples X posFree Xc' (i + j) of
                  (X', posFree', Xc'') \<Rightarrow> Inr (X', i + j, posFree', Xc''))))"

lemma find_run_step:
  "i + j < length X \<Longrightarrow> HasCollision (X ! i) (X ! (i + j)) l \<Longrightarrow>
   find_run X l i j = find_run X l i (j + 1)"
  by (subst find_run.simps) simp

lemma find_run_stop:
  "\<not> (i + j < length X \<and> HasCollision (X ! i) (X ! (i + j)) l) \<Longrightarrow> find_run X l i j = j"
  by (subst find_run.simps) auto

lemma find_run_ge: "j \<le> find_run X l i j"
proof (induction X l i j rule: find_run.induct)
  case (1 X l i j)
  show ?case
  proof (cases "i + j < length X \<and> HasCollision (X ! i) (X ! (i + j)) l")
    case True
    with "1.IH" have "j + 1 \<le> find_run X l i (j + 1)" by simp
    with True show ?thesis by (simp add: find_run_step)
  next
    case False
    then show ?thesis using find_run_stop [of i j X l] by simp
  qed
qed

lemma find_run_le: "i + j \<le> length X \<Longrightarrow> i + find_run X l i j \<le> length X"
proof (induction X l i j rule: find_run.induct)
  case (1 X l i j)
  show ?case
  proof (cases "i + j < length X \<and> HasCollision (X ! i) (X ! (i + j)) l")
    case True
    with "1.IH" have "i + find_run X l i (j + 1) \<le> length X" by simp
    with True show ?thesis by (simp add: find_run_step)
  next
    case False
    with "1.prems" show ?thesis using find_run_stop [of i j X l] by simp
  qed
qed

lemma store_tuples_step:
  "posFree < bound \<Longrightarrow> Xc \<noteq> [] \<Longrightarrow>
   store_tuples X posFree Xc bound =
   store_tuples (X[posFree := last Xc]) (posFree + 1) (butlast Xc) bound"
  by (subst store_tuples.simps) simp

lemma store_tuples_stop:
  "\<not> (posFree < bound \<and> Xc \<noteq> []) \<Longrightarrow> store_tuples X posFree Xc bound = (X, posFree, Xc)"
  by (subst store_tuples.simps) auto

lemma store_tuples_length:
  "store_tuples X posFree Xc bound = (X', posFree', Xc') \<Longrightarrow> length X' = length X"
proof (induction X posFree Xc bound rule: store_tuples.induct)
  case (1 X posFree Xc bound)
  show ?case
  proof (cases "posFree < bound \<and> Xc \<noteq> []")
    case True
    with "1.prems" have
      "store_tuples (X[posFree := last Xc]) (posFree + 1) (butlast Xc) bound = (X', posFree', Xc')"
      by (simp add: store_tuples_step)
    with "1.IH" True have "length X' = length (X[posFree := last Xc])" by blast
    then show ?thesis by simp
  next
    case False
    with "1.prems" show ?thesis by (simp add: store_tuples_stop)
  qed
qed

lemma scan_body_progress:
  assumes "scan_body chk xr l (X, i, posFree, Xc) = Inr (X', i', posFree', Xc')"
  shows "length X' = length X \<and> i < i'"
proof -
  let ?j = "find_run X l i 1"
  show ?thesis
  proof (cases "calc_tuples chk xr l X i ?j Xc")
    case (Inl e)
    with assms show ?thesis by (simp add: scan_body_def)
  next
    case (Inr Xc1)
    obtain X2 p2 Xc2 where st: "store_tuples X posFree Xc1 (i + ?j) = (X2, p2, Xc2)"
      by (cases "store_tuples X posFree Xc1 (i + ?j)") auto
    from assms Inr st have "X' = X2" and i': "i' = i + ?j"
      by (simp_all add: scan_body_def)
    moreover from st have "length X2 = length X" by (rule store_tuples_length)
    moreover have "1 \<le> ?j" by (rule find_run_ge)
    ultimately show ?thesis by simp
  qed
qed

text \<open>
  \<^verbatim>\<open>while (i < X.size() - 1)\<close>. The enclosing \<^verbatim>\<open>for\<close> loop enters a round only with
  \<^verbatim>\<open>X.size() > 0\<close>, so the unsigned \<^verbatim>\<open>X.size() - 1\<close> does not wrap.
\<close>

function scan_loop ::
  "(('i, 'z) StepRow_scheme \<Rightarrow> ('i, 'z) StepRow_scheme \<Rightarrow> bool) \<Rightarrow>
   (('i, 'z) StepRow_scheme \<Rightarrow> ('i, 'z) StepRow_scheme \<Rightarrow> error + ('i, 'z) StepRow_scheme) \<Rightarrow>
   nat \<Rightarrow>
   ('i, 'z) StepRow_scheme list \<times> nat \<times> nat \<times> ('i, 'z) StepRow_scheme list \<Rightarrow>
   error + ('i, 'z) StepRow_scheme list \<times> nat \<times> nat \<times> ('i, 'z) StepRow_scheme list" where
  "scan_loop chk xr l s =
     (if fst (snd s) < length (fst s) - 1 then
        (case scan_body chk xr l s of
           Inl e \<Rightarrow> Inl e
         | Inr s' \<Rightarrow> scan_loop chk xr l s')
      else Inr s)"
  by pat_completeness auto
termination
proof (relation "measure (\<lambda>(chk, xr, l, s). length (fst s) - fst (snd s))", goal_cases)
  case 1
  show ?case by simp
next
  case (2 chk xr l s s')
  obtain X i posFree Xc where s: "s = (X, i, posFree, Xc)" by (cases s) auto
  obtain X' i' posFree' Xc' where s': "s' = (X', i', posFree', Xc')" by (cases s') auto
  from 2 s s' have "length X' = length X \<and> i < i'"
    using scan_body_progress [of chk xr l X i posFree Xc X' i' posFree' Xc'] by simp
  with 2 s s' show ?case by auto
qed

declare scan_loop.simps [simp del]

text \<open>
  The states the scan loop passes through at the head of the \<^verbatim>\<open>while\<close>, for a table
  that is \<open>X0\<close> when the loop starts: the step relation of the loop.
\<close>

inductive scan_reach ::
  "(('i, 'z) StepRow_scheme \<Rightarrow> ('i, 'z) StepRow_scheme \<Rightarrow> bool) \<Rightarrow>
   (('i, 'z) StepRow_scheme \<Rightarrow> ('i, 'z) StepRow_scheme \<Rightarrow> error + ('i, 'z) StepRow_scheme) \<Rightarrow>
   nat \<Rightarrow> ('i, 'z) StepRow_scheme list \<Rightarrow>
   ('i, 'z) StepRow_scheme list \<times> nat \<times> nat \<times> ('i, 'z) StepRow_scheme list \<Rightarrow> bool"
  for chk xr l X0 where
    start: "scan_reach chk xr l X0 (X0, 0, 0, [])"
  | step: "scan_reach chk xr l X0 s \<Longrightarrow> fst (snd s) < length (fst s) - 1 \<Longrightarrow>
           scan_body chk xr l s = Inr s' \<Longrightarrow> scan_reach chk xr l X0 s'"

text \<open>
  One round of the \<^verbatim>\<open>for\<close> loop: 2a (sort), the scan, 2e (drain what is left of \<^verbatim>\<open>Xc\<close>
  into the table), then 2f (append the overflow) or 2g (erase the unused tail).
\<close>

definition collision_round ::
  "(('i, 'z) StepRow_scheme list \<Rightarrow> ('i, 'z) StepRow_scheme list) \<Rightarrow>
   (('i, 'z) StepRow_scheme \<Rightarrow> ('i, 'z) StepRow_scheme \<Rightarrow> bool) \<Rightarrow>
   (('i, 'z) StepRow_scheme \<Rightarrow> ('i, 'z) StepRow_scheme \<Rightarrow> error + ('i, 'z) StepRow_scheme) \<Rightarrow>
   nat \<Rightarrow> ('i, 'z) StepRow_scheme list \<Rightarrow> error + ('i, 'z) StepRow_scheme list" where
  "collision_round srt chk xr l X =
     (case scan_loop chk xr l (srt X, 0, 0, []) of
        Inl e \<Rightarrow> Inl e
      | Inr (X1, i, posFree1, Xc1) \<Rightarrow>
          (case store_tuples X1 posFree1 Xc1 (length X1) of
             (X2, posFree, Xc) \<Rightarrow>
               if Xc \<noteq> [] then Inr (X2 @ Xc)
               else if posFree < length X2 then Inr (take posFree X2)
               else Inr X2))"

text \<open>\<^verbatim>\<open>for (int r = 1; r < k && X.size() > 0; r++)\<close>.\<close>

function collision_rounds ::
  "(('i, 'z) StepRow_scheme list \<Rightarrow> ('i, 'z) StepRow_scheme list) \<Rightarrow>
   (('i, 'z) StepRow_scheme \<Rightarrow> ('i, 'z) StepRow_scheme \<Rightarrow> bool) \<Rightarrow>
   (('i, 'z) StepRow_scheme \<Rightarrow> ('i, 'z) StepRow_scheme \<Rightarrow> error + ('i, 'z) StepRow_scheme) \<Rightarrow>
   nat \<Rightarrow> nat \<Rightarrow> nat \<Rightarrow> ('i, 'z) StepRow_scheme list \<Rightarrow>
   error + ('i, 'z) StepRow_scheme list" where
  "collision_rounds srt chk xr l k r X =
     (if r < k \<and> length X > 0 then
        (case collision_round srt chk xr l X of
           Inl e \<Rightarrow> Inl e
         | Inr X' \<Rightarrow> collision_rounds srt chk xr l k (r + 1) X')
      else Inr X)"
  by pat_completeness auto
termination
  by (relation "measure (\<lambda>(srt, chk, xr, l, k, r, X). k - r)") auto

declare collision_rounds.simps [simp del]

text \<open>
  The final round: after sorting, every adjacent pair whose xor is all zero and whose
  index vectors are distinct yields \<open>out res\<close> (\<^verbatim>\<open>res.GetSolution()\<close> in \<^verbatim>\<open>BasicSolve\<close>,
  \<^verbatim>\<open>res.GetPartialSolution()\<close> in \<^verbatim>\<open>OptimisedSolve\<close>), collected by \<open>ins\<close> into the
  \<^verbatim>\<open>std::set\<close> that starts as \<open>none\<close>.
\<close>

definition final_round ::
  "(('i::linorder, 'z) StepRow_scheme list \<Rightarrow> ('i, 'z) StepRow_scheme list) \<Rightarrow>
   (('i, 'z) StepRow_scheme \<Rightarrow> ('i, 'z) StepRow_scheme \<Rightarrow> error + ('i, 'z) StepRow_scheme) \<Rightarrow>
   ('i list \<Rightarrow> 's \<Rightarrow> 's) \<Rightarrow> 's \<Rightarrow> ('i, 'z) StepRow_scheme list \<Rightarrow> error + 's" where
  "final_round srt xr ins none X0 =
     (if length X0 > 1 then
        let X = srt X0 in
        for_each [0 ..< length X - 1] (\<lambda>i solns.
          case xr (X ! i) (X ! (i + 1)) of
            Inl e \<Rightarrow> Inl e
          | Inr res \<Rightarrow>
              Inr (if IsZero res \<and> DistinctIndices_rows (X ! i) (X ! (i + 1))
                   then ins (indices res) solns else solns)) none
      else Inr none)"

section \<open>The basic solver\<close>

text \<open>
  \<^verbatim>\<open>Equihash::BasicSolve\<close>: the \<^verbatim>\<open>assert\<close>, the first list of
  \<^verbatim>\<open>init_size = 1 << (CollisionBitLength() + 1)\<close> leaf rows, the rounds
  \<^verbatim>\<open>r = 1 .. k-1\<close> and the final round. The result is a \<^verbatim>\<open>std::set\<close> of index vectors.
\<close>

definition first_list :: "Equihash \<Rightarrow> eh_HashState \<Rightarrow> BasicStepRow list" where
  "first_list eh base_state =
     map (\<lambda>i. BasicStepRow_ctor (param_n eh) base_state (word_of_nat i))
       [0 ..< 2 ^ (CollisionBitLength eh + 1)]"

definition BasicSolve ::
  "(BasicStepRow list \<Rightarrow> BasicStepRow list) \<Rightarrow> Equihash \<Rightarrow> eh_HashState \<Rightarrow>
   error + eh_index list set" where
  "BasicSolve srt eh base_state =
     (if \<not> CollisionBitLength eh + 1 < 32 then Inl assertion_failed
      else
        case collision_rounds srt DistinctIndices_rows BasicStepRow_xor
               (CollisionByteLength eh) (unat (param_k eh)) 1 (first_list eh base_state) of
          Inl e \<Rightarrow> Inl e
        | Inr X \<Rightarrow> final_round srt BasicStepRow_xor insert {} X)"

section \<open>The verifier\<close>

text \<open>
  The \<^verbatim>\<open>for\<close> loop of \<^verbatim>\<open>IsValidSolution\<close> over the pairs \<^verbatim>\<open>X[i], X[i+1]\<close> of one level.
  \<open>Inr None\<close> is \<^verbatim>\<open>return false\<close>; with an odd number of rows the last \<^verbatim>\<open>X[i+1]\<close> is
  past the end of the vector.
\<close>

fun verify_level :: "nat \<Rightarrow> BasicStepRow list \<Rightarrow> error + BasicStepRow list option" where
  "verify_level l [] = Inr (Some [])"
| "verify_level l [a] = Inl undefined_behaviour"
| "verify_level l (a # b # X) =
     (if \<not> HasCollision a b l then Inr None
      else if IndicesBefore b a then Inr None
      else if \<not> DistinctIndices_rows a b then Inr None
      else
        (case BasicStepRow_xor a b of
           Inl e \<Rightarrow> Inl e
         | Inr r \<Rightarrow>
             (case verify_level l X of
                Inl e \<Rightarrow> Inl e
              | Inr None \<Rightarrow> Inr None
              | Inr (Some Xc) \<Rightarrow> Inr (Some (TrimHash l r # Xc)))))"

lemma verify_level_length:
  "verify_level l X = Inr (Some Xc) \<Longrightarrow> length X = 2 * length Xc"
  by (induction l X arbitrary: Xc rule: verify_level.induct)
     (auto split: if_splits sum.splits option.splits)

text \<open>
  \<^verbatim>\<open>while (X.size() > 1)\<close>, then \<^verbatim>\<open>assert(X.size() == 1); return X[0].IsZero();\<close>.
\<close>

function verify_loop :: "nat \<Rightarrow> BasicStepRow list \<Rightarrow> error + bool" where
  "verify_loop l X =
     (if length X > 1 then
        (case verify_level l X of
           Inl e \<Rightarrow> Inl e
         | Inr None \<Rightarrow> Inr False
         | Inr (Some Xc) \<Rightarrow> verify_loop l Xc)
      else if length X = 1 then Inr (IsZero (X ! 0))
      else Inl assertion_failed)"
  by pat_completeness auto
termination
  by (relation "measure (\<lambda>(l, X). length X)") (auto dest!: verify_level_length)

declare verify_loop.simps [simp del]

text \<open>
  \<^verbatim>\<open>Equihash::IsValidSolution\<close>. \<^verbatim>\<open>eh_index soln_size { pow(2, k) }\<close> converts a
  \<^verbatim>\<open>double\<close> to \<^verbatim>\<open>uint32_t\<close>, which is undefined from \<^verbatim>\<open>2^32\<close> on.
\<close>

definition IsValidSolution :: "Equihash \<Rightarrow> eh_HashState \<Rightarrow> eh_index list \<Rightarrow> error + bool" where
  "IsValidSolution eh base_state soln =
     (if unat (param_k eh) \<ge> 32 then Inl undefined_behaviour
      else if length soln \<noteq> 2 ^ unat (param_k eh) then Inr False
      else verify_loop (CollisionByteLength eh)
             (map (BasicStepRow_ctor (param_n eh) base_state) soln))"

section \<open>The optimised solver\<close>

text \<open>
  Phase A of \<^verbatim>\<open>Equihash::OptimisedSolve\<close>: the same rounds on truncated rows, without the
  distinct-index test in the rounds. The partial solutions are a
  \<^verbatim>\<open>std::set<std::vector<eh_trunc>>\<close>, which the second phase iterates in its order
  (vectors compare lexicographically): a sorted list without duplicates. The first list
  is built row by row with \<^verbatim>\<open>ilen = CollisionBitLength() + 1\<close>; a constructor call whose
  shift is undefined ends the run.
\<close>

definition first_list_trunc ::
  "Equihash \<Rightarrow> eh_HashState \<Rightarrow> error + TruncatedStepRow list" where
  "first_list_trunc eh base_state =
     for_each [0 ..< 2 ^ (CollisionBitLength eh + 1)]
       (\<lambda>i Xt.
          case TruncatedStepRow_ctor (param_n eh) base_state (word_of_nat i)
                 (word_of_nat (CollisionBitLength eh + 1)) of
            Inl e \<Rightarrow> Inl e
          | Inr row \<Rightarrow> Inr (Xt @ [row])) []"

definition partial_solutions ::
  "(TruncatedStepRow list \<Rightarrow> TruncatedStepRow list) \<Rightarrow> Equihash \<Rightarrow> eh_HashState \<Rightarrow>
   error + eh_trunc list list" where
  "partial_solutions srt eh base_state =
     (case first_list_trunc eh base_state of
        Inl e \<Rightarrow> Inl e
      | Inr Xt0 \<Rightarrow>
          (case collision_rounds srt (\<lambda>a b. True) TruncatedStepRow_xor
                  (CollisionByteLength eh) (unat (param_k eh)) 1 Xt0 of
             Inl e \<Rightarrow> Inl e
           | Inr Xt \<Rightarrow> final_round srt TruncatedStepRow_xor insort_insert [] Xt))"

text \<open>
  Phase B, list generation. The index of a leaf is
  \<^verbatim>\<open>(partialSoln[i] << recreate_size) | j\<close>: the \<^verbatim>\<open>uint8_t\<close> is promoted to \<^verbatim>\<open>int\<close> and
  shifted by \<^verbatim>\<open>recreate_size\<close> itself, which is undefined when the shift count reaches
  the width of \<^verbatim>\<open>int\<close> or the result does not fit.
\<close>

definition untruncate :: "eh_trunc \<Rightarrow> nat \<Rightarrow> eh_index \<Rightarrow> error + eh_index" where
  "untruncate p recreate_size j =
     (if recreate_size \<ge> 32 \<or> unat p * 2 ^ recreate_size \<ge> 2 ^ 31
      then Inl undefined_behaviour
      else Inr (push_bit recreate_size (ucast p) OR j))"

definition recreate_list ::
  "32 word \<Rightarrow> eh_HashState \<Rightarrow> nat \<Rightarrow> eh_trunc \<Rightarrow> error + BasicStepRow list" where
  "recreate_list n base_state recreate_size p =
     for_each [0 ..< recreate_size] (\<lambda>j ic.
       case untruncate p recreate_size (word_of_nat j) of
         Inl e \<Rightarrow> Inl e
       | Inr idx \<Rightarrow> Inr (ic @ [BasicStepRow_ctor n base_state idx])) []"

definition recreate_lists ::
  "32 word \<Rightarrow> eh_HashState \<Rightarrow> nat \<Rightarrow> eh_trunc list \<Rightarrow> error + BasicStepRow list list" where
  "recreate_lists n base_state recreate_size partialSoln =
     for_each [0 ..< length partialSoln] (\<lambda>i X.
       case recreate_list n base_state recreate_size (partialSoln ! i) of
         Inl e \<Rightarrow> Inl e
       | Inr ic \<Rightarrow> Inr (X @ [ic])) []"

text \<open>
  Phase B, the cross-merge of a pair of lists \<open>A = X[v]\<close>, \<open>B = X[v+1]\<close>. The two inner
  \<^verbatim>\<open>while\<close> loops count the rows of \<open>A\<close> from \<^verbatim>\<open>iChecked\<close> that collide with
  \<^verbatim>\<open>B[jChecked]\<close>, and the rows of \<open>B\<close> after \<^verbatim>\<open>jChecked\<close> that collide with
  \<^verbatim>\<open>A[iChecked]\<close>; \<^verbatim>\<open>j\<close> starts at 1.
\<close>

function count_i :: "BasicStepRow list \<Rightarrow> BasicStepRow \<Rightarrow> nat \<Rightarrow> nat \<Rightarrow> nat \<Rightarrow> nat" where
  "count_i A b l iChecked i =
     (if iChecked + i < length A \<and> HasCollision (A ! (iChecked + i)) b l
      then count_i A b l iChecked (i + 1) else i)"
  by pat_completeness auto
termination
  by (relation "measure (\<lambda>(A, b, l, iChecked, i). length A - (iChecked + i))") auto

declare count_i.simps [simp del]

function count_j :: "BasicStepRow \<Rightarrow> BasicStepRow list \<Rightarrow> nat \<Rightarrow> nat \<Rightarrow> nat \<Rightarrow> nat" where
  "count_j a B l jChecked j =
     (if jChecked + j < length B \<and> HasCollision a (B ! (jChecked + j)) l
      then count_j a B l jChecked (j + 1) else j)"
  by pat_completeness auto
termination
  by (relation "measure (\<lambda>(a, B, l, jChecked, j). length B - (jChecked + j))") auto

declare count_j.simps [simp del]

text \<open>
  The body of the double \<^verbatim>\<open>for\<close> loop: the test reads \<^verbatim>\<open>X[v+1][jChecked+m]\<close>, the merge
  reads \<^verbatim>\<open>X[v][jChecked+m]\<close>, which is past the end of \<open>A\<close> when \<open>A\<close> is too short.
\<close>

definition cross_emit ::
  "nat \<Rightarrow> BasicStepRow list \<Rightarrow> BasicStepRow list \<Rightarrow> nat \<Rightarrow> nat \<Rightarrow> nat \<Rightarrow> nat \<Rightarrow>
   BasicStepRow list \<Rightarrow> error + BasicStepRow list" where
  "cross_emit l A B iChecked jChecked l' m ic =
     (if DistinctIndices_rows (A ! (iChecked + l')) (B ! (jChecked + m)) then
        (if jChecked + m < length A then
           (case BasicStepRow_xor (A ! (iChecked + l')) (A ! (jChecked + m)) of
              Inl e \<Rightarrow> Inl e
            | Inr r \<Rightarrow> Inr (ic @ [TrimHash l r]))
         else Inl undefined_behaviour)
      else Inr ic)"

text \<open>
  One pass of the body of
  \<^verbatim>\<open>while (iChecked < X[v].size() && jChecked < X[v+1].size())\<close> on the state
  \<open>(iChecked, jChecked, ic)\<close>.
\<close>

definition cross_body ::
  "nat \<Rightarrow> BasicStepRow list \<Rightarrow> BasicStepRow list \<Rightarrow> nat \<times> nat \<times> BasicStepRow list \<Rightarrow>
   error + nat \<times> nat \<times> BasicStepRow list" where
  "cross_body l A B s =
     (case s of (iChecked, jChecked, ic) \<Rightarrow>
        let i = count_i A (B ! jChecked) l iChecked 0;
            j = count_j (A ! iChecked) B l jChecked 1
        in
          (case for_each [0 ..< i] (\<lambda>l'.
                  for_each [0 ..< j] (\<lambda>m. cross_emit l A B iChecked jChecked l' m)) ic of
             Inl e \<Rightarrow> Inl e
           | Inr ic' \<Rightarrow>
               if i = 0 \<and> j = 0 then Inr (iChecked, jChecked + 1, ic')
               else Inr (iChecked + i, jChecked + j, ic')))"

text \<open>
  The loop itself is defined without a termination argument: \<open>None\<close> would be a run
  that never leaves the loop.
\<close>

partial_function (option) cross_loop ::
  "nat \<Rightarrow> BasicStepRow list \<Rightarrow> BasicStepRow list \<Rightarrow> nat \<times> nat \<times> BasicStepRow list \<Rightarrow>
   (error + BasicStepRow list) option" where
  "cross_loop l A B s =
     (if fst s < length A \<and> fst (snd s) < length B then
        (case cross_body l A B s of
           Inl e \<Rightarrow> Some (Inl e)
         | Inr s' \<Rightarrow> cross_loop l A B s')
      else Some (Inr (snd (snd s))))"

declare cross_loop.simps [code]

text \<open>
  \<^verbatim>\<open>for (int v = 0; v < X.size(); v += 2)\<close>: each pair of lists is merged into one. With
  an odd number of lists the last \<^verbatim>\<open>X[v+1]\<close> is past the end; the loop condition reads
  it unless \<^verbatim>\<open>X[v]\<close> is empty.
\<close>

fun cross_pairs ::
  "nat \<Rightarrow> BasicStepRow list list \<Rightarrow> (error + BasicStepRow list list) option" where
  "cross_pairs l [] = Some (Inr [])"
| "cross_pairs l [A] = (if A = [] then Some (Inr [[]]) else Some (Inl undefined_behaviour))"
| "cross_pairs l (A # B # X) =
     (case cross_loop l A B (0, 0, []) of
        None \<Rightarrow> None
      | Some (Inl e) \<Rightarrow> Some (Inl e)
      | Some (Inr ic) \<Rightarrow>
          (case cross_pairs l X of
             None \<Rightarrow> None
           | Some (Inl e) \<Rightarrow> Some (Inl e)
           | Some (Inr Xc) \<Rightarrow> Some (Inr (ic # Xc))))"

lemma cross_pairs_length:
  "cross_pairs l X = Some (Inr Xc) \<Longrightarrow> length Xc = (length X + 1) div 2"
  by (induction l X arbitrary: Xc rule: cross_pairs.induct)
     (auto split: if_splits option.splits sum.splits)

text \<open>
  \<^verbatim>\<open>while (X.size() > 1)\<close>: sort every non-empty list, merge the pairs. Then
  \<^verbatim>\<open>assert(X.size() == 1)\<close> and the rows of \<^verbatim>\<open>X[0]\<close> are the result.
\<close>

function recreate_levels ::
  "(BasicStepRow list \<Rightarrow> BasicStepRow list) \<Rightarrow> nat \<Rightarrow> BasicStepRow list list \<Rightarrow>
   (error + BasicStepRow list) option" where
  "recreate_levels srt l X =
     (if length X > 1 then
        (case cross_pairs l (map (\<lambda>Xv. if length Xv = 0 then Xv else srt Xv) X) of
           None \<Rightarrow> None
         | Some (Inl e) \<Rightarrow> Some (Inl e)
         | Some (Inr Xc) \<Rightarrow> recreate_levels srt l Xc)
      else if length X = 1 then Some (Inr (X ! 0))
      else Some (Inl assertion_failed))"
  by pat_completeness auto
termination
  by (relation "measure (\<lambda>(srt, l, X). length X)") (auto dest!: cross_pairs_length)

declare recreate_levels.simps [simp del]

text \<open>
  The body of \<^verbatim>\<open>for (std::vector<eh_trunc> partialSoln : partialSolns)\<close>: generate the
  lists, run the levels, insert the index vector of every row of the last list into
  \<^verbatim>\<open>solns\<close>.
\<close>

definition recreate ::
  "(BasicStepRow list \<Rightarrow> BasicStepRow list) \<Rightarrow> Equihash \<Rightarrow> eh_HashState \<Rightarrow> nat \<Rightarrow>
   eh_trunc list \<Rightarrow> eh_index list set \<Rightarrow> (error + eh_index list set) option" where
  "recreate srt eh base_state recreate_size partialSoln solns =
     (case recreate_lists (param_n eh) base_state recreate_size partialSoln of
        Inl e \<Rightarrow> Some (Inl e)
      | Inr X \<Rightarrow>
          (case recreate_levels srt (CollisionByteLength eh) X of
             None \<Rightarrow> None
           | Some (Inl e) \<Rightarrow> Some (Inl e)
           | Some (Inr X0) \<Rightarrow> Some (Inr (fold (\<lambda>row. insert (indices row)) X0 solns))))"

fun for_each_partial ::
  "'a list \<Rightarrow> ('a \<Rightarrow> 's \<Rightarrow> (error + 's) option) \<Rightarrow> 's \<Rightarrow> (error + 's) option" where
  "for_each_partial [] body s = Some (Inr s)"
| "for_each_partial (x # xs) body s =
     (case body x s of
        None \<Rightarrow> None
      | Some (Inl e) \<Rightarrow> Some (Inl e)
      | Some (Inr s') \<Rightarrow> for_each_partial xs body s')"

text \<open>
  \<^verbatim>\<open>Equihash::OptimisedSolve\<close>. \<^verbatim>\<open>recreate_size\<close> is
  \<^verbatim>\<open>((eh_index) 1) << (CollisionBitLength() - 7)\<close>, with an unsigned subtraction that wraps
  below 7 to a shift count beyond the width of the type.
\<close>

definition OptimisedSolve ::
  "(TruncatedStepRow list \<Rightarrow> TruncatedStepRow list) \<Rightarrow>
   (BasicStepRow list \<Rightarrow> BasicStepRow list) \<Rightarrow> Equihash \<Rightarrow> eh_HashState \<Rightarrow>
   (error + eh_index list set) option" where
  "OptimisedSolve srt_t srt_b eh base_state =
     (if \<not> CollisionBitLength eh + 1 < 32 then Some (Inl assertion_failed)
      else
        case partial_solutions srt_t eh base_state of
          Inl e \<Rightarrow> Some (Inl e)
        | Inr partialSolns \<Rightarrow>
            if CollisionBitLength eh < 7 then Some (Inl undefined_behaviour)
            else
              for_each_partial partialSolns
                (recreate srt_b eh base_state (2 ^ (CollisionBitLength eh - 7))) {})"

text \<open>
  The rows the verifier holds after \<open>t\<close> passes of its \<^verbatim>\<open>while\<close> loop, if it gets that
  far: \<open>t\<close> runs of the \<^verbatim>\<open>for\<close> loop over the pairs.
\<close>

fun verify_levels :: "nat \<Rightarrow> nat \<Rightarrow> BasicStepRow list \<Rightarrow> error + BasicStepRow list option" where
  "verify_levels l 0 X = Inr (Some X)"
| "verify_levels l (Suc t) X =
     (case verify_level l X of
        Inl e \<Rightarrow> Inl e
      | Inr None \<Rightarrow> Inr None
      | Inr (Some Xc) \<Rightarrow> verify_levels l t Xc)"

text \<open>All rows of a list have hashes of \<open>h\<close> bytes and \<open>m\<close> indices.\<close>

definition rows_shape :: "nat \<Rightarrow> nat \<Rightarrow> ('i, 'z) StepRow_scheme list \<Rightarrow> bool" where
  "rows_shape h m X \<longleftrightarrow> (\<forall>a \<in> set X. length (hash a) = h \<and> length (indices a) = m)"

text \<open>
  A sorting function for the concrete runs below: insertion sort by the order of
  \<^verbatim>\<open>operator<\<close> on rows, \<^verbatim>\<open>memcmp(a.hash, b.hash, a.len) < 0\<close> (bytes compared as
  \<^verbatim>\<open>unsigned char\<close>, the first difference decides).
\<close>

fun memcmp_less :: "byte list \<Rightarrow> byte list \<Rightarrow> bool" where
  "memcmp_less (x # xs) (y # ys) = (x < y \<or> (x = y \<and> memcmp_less xs ys))"
| "memcmp_less xs ys = False"

definition row_less :: "('i, 'z) StepRow_scheme \<Rightarrow> ('i, 'z) StepRow_scheme \<Rightarrow> bool" where
  "row_less a b = memcmp_less (hash a) (hash b)"

fun row_insert ::
  "('i, 'z) StepRow_scheme \<Rightarrow> ('i, 'z) StepRow_scheme list \<Rightarrow> ('i, 'z) StepRow_scheme list" where
  "row_insert a [] = [a]"
| "row_insert a (b # X) = (if row_less b a then b # row_insert a X else a # b # X)"

definition row_sort :: "('i, 'z) StepRow_scheme list \<Rightarrow> ('i, 'z) StepRow_scheme list" where
  "row_sort X = foldr row_insert X []"

section \<open>Notions for the statements and the proofs\<close>

text \<open>
  \<open>P\<close> holds of the rows a round starts with, \<open>Q\<close> of the rows it produces, when
  merging two colliding \<open>P\<close> rows that pass the test gives a \<open>Q\<close> row.
\<close>

definition merge_step ::
  "(('i, 'z) StepRow_scheme \<Rightarrow> ('i, 'z) StepRow_scheme \<Rightarrow> bool) \<Rightarrow>
   (('i, 'z) StepRow_scheme \<Rightarrow> ('i, 'z) StepRow_scheme \<Rightarrow> error + ('i, 'z) StepRow_scheme) \<Rightarrow>
   nat \<Rightarrow> (('i, 'z) StepRow_scheme \<Rightarrow> bool) \<Rightarrow> (('i, 'z) StepRow_scheme \<Rightarrow> bool) \<Rightarrow> bool" where
  "merge_step chk xr l P Q \<longleftrightarrow>
     (\<forall>a b. P a \<and> P b \<and> HasCollision a b l \<and> chk a b \<longrightarrow>
        (\<exists>c. xr a b = Inr c \<and> Q (TrimHash l c)))"

text \<open>
  A row of the basic solver after \<open>r\<close> merges: it has \<open>2^r\<close> distinct indices below
  \<open>2^(N+1)\<close>, and the verifier, run for \<open>r\<close> levels on the leaves of these indices,
  accepts every pair and is left with this very row.
\<close>

definition tree_row :: "Equihash \<Rightarrow> eh_HashState \<Rightarrow> nat \<Rightarrow> BasicStepRow \<Rightarrow> bool" where
  "tree_row eh base_state r row \<longleftrightarrow>
     length (indices row) = 2 ^ r \<and> distinct (indices row) \<and>
     (\<forall>i \<in> set (indices row). unat i < 2 ^ (CollisionBitLength eh + 1)) \<and>
     verify_levels (CollisionByteLength eh) r
       (map (BasicStepRow_ctor (param_n eh) base_state) (indices row)) = Inr (Some [row])"

text \<open>
  Two base states for concrete runs. In the first every digest is zero. In the second
  the digest of the index \<open>i\<close> is the big-endian two-byte number \<open>i\<close> for \<open>i < 2\<close> and
  \<open>i - 1\<close> from 2 on, so that among the first 512 leaves exactly the leaves 1 and 2
  have the same digest and the first list is already in \<^verbatim>\<open>memcmp\<close> order.
\<close>

definition zero_state :: eh_HashState where
  "zero_state i p = 0"

definition shifted_state :: eh_HashState where
  "shifted_state i p =
     (let m = (if 2 \<le> unat i then unat i - 1 else unat i)
      in if p = 0 then word_of_nat (m div 256) else word_of_nat (m mod 256))"

definition eh_16_1 :: Equihash where
  "eh_16_1 = \<lparr>param_n = 16, param_k = 1\<rparr>"

definition eh_8_0 :: Equihash where
  "eh_8_0 = \<lparr>param_n = 8, param_k = 0\<rparr>"

text \<open>
  The digest of the second state as a function of the leaf number, and the truncated
  index of a leaf for \<open>N = 8\<close> (\<^verbatim>\<open>(i >> 1) & 0xff\<close>).
\<close>

definition shifted :: "nat \<Rightarrow> nat" where
  "shifted j = (if 2 \<le> j then j - 1 else j)"

definition two_bytes :: "nat \<Rightarrow> byte list" where
  "two_bytes m = [word_of_nat (m div 256), word_of_nat (m mod 256)]"

definition trunc_index :: "nat \<Rightarrow> eh_trunc" where
  "trunc_index j = ucast (drop_bit 1 (word_of_nat j :: eh_index) AND 0xff)"

section \<open>Properties of construction and of the row operations\<close>

lemma xor_bytes_map2:
  "length h = length g \<Longrightarrow> xor_bytes h g = map2 (XOR) h g"
  by (auto simp: xor_bytes_def intro!: nth_equalityI)

lemma xor_bytes_commute:
  "length h = length g \<Longrightarrow> xor_bytes h g = xor_bytes g h"
  by (auto simp: xor_bytes_def xor.commute)

lemma length_xor_bytes [simp]: "length (xor_bytes h g) = length h"
  by (simp add: xor_bytes_def)

subsection \<open>Construction\<close>

lemma sint_small:
  fixes w :: "32 word"
  assumes "unat w < 2 ^ 31"
  shows "sint w = int (unat w)"
proof -
  have u: "uint w = int (unat w)" by simp
  from assms have "int (unat w) < 2 ^ 31"
    by (metis of_nat_less_iff of_nat_numeral of_nat_power)
  moreover have "- (2 ^ 31) \<le> int (unat w)"
    by (rule order_trans [of _ 0]) simp_all
  ultimately have "signed_take_bit 31 (int (unat w)) = int (unat w)"
    by (intro signed_take_bit_int_eq_self)
  then show ?thesis
    unfolding sint_uint u by simp
qed

lemma validate_params_nonneg:
  "validate_params (int n) (int k) =
     (if k < n \<and> n mod 8 = 0 \<and> (n div (k + 1)) mod 8 = 0 then Inr () else Inl invalid_params)"
proof -
  have sm: "int a smod 8 = int (a mod 8)" for a
    by (cases "a = 0") (simp_all add: signed_modulo_int_def zmod_int)
  have sd: "int n sdiv (int k + 1) = int (n div (k + 1))"
    by (simp add: signed_divide_int_def sgn_if zdiv_int) (metis add.commute)
  have nz: "int k + 1 \<noteq> 0" by simp
  show ?thesis
    unfolding validate_params_def sd sm using nz by auto
qed

lemma Equihash_ctor_int_range:
  assumes "unat n < 2 ^ 31" and "unat k < 2 ^ 31"
  shows "Equihash_ctor n k =
     (if params_invariant n k then Inr \<lparr>param_n = n, param_k = k\<rparr> else Inl invalid_params)"
  unfolding Equihash_ctor_def sint_small [OF assms(1)] sint_small [OF assms(2)]
    validate_params_nonneg params_invariant_def
  by simp

text \<open>
  C4. Construction raises \<^verbatim>\<open>invalid_params\<close> exactly when the parameters violate the
  invariants. The constructor takes \<^verbatim>\<open>unsigned int\<close>s and hands them to
  \<^verbatim>\<open>validate_params(int, int)\<close>: for \<open>n = 0\<close> and \<open>k = 4294967294\<close> the test
  \<^verbatim>\<open>k >= n\<close> compares \<open>-2\<close> with \<open>0\<close>, the other two tests pass on \<open>0\<close>, and the
  object is constructed although \<open>k \<ge> n\<close>. Conversely \<open>n = 2147483648\<close>, \<open>k = 0\<close>
  satisfies the three invariants and is rejected. (\<open>Equihash_ctor_int_range\<close>: below
  \<open>2^31\<close> the claim holds.)
\<close>

theorem Equihash_ctor_unsigned_parameters:
  "Equihash_ctor 0 4294967294 = Inr \<lparr>param_n = 0, param_k = 4294967294\<rparr>
   \<and> \<not> params_invariant 0 4294967294
   \<and> Equihash_ctor 2147483648 0 = Inl invalid_params
   \<and> params_invariant 2147483648 0"
  by (simp add: Equihash_ctor_def validate_params_def params_invariant_def
      signed_divide_int_def signed_modulo_int_def)

lemma BasicStepRow_xor_eq:
  assumes "length (hash a) = length (hash b)"
    and "length (indices a) = length (indices b)"
  shows "BasicStepRow_xor a b =
     Inr \<lparr>hash = map2 (XOR) (hash a) (hash b),
          indices = (if indices a ! 0 < indices b ! 0 then indices a @ indices b
                     else indices b @ indices a)\<rparr>"
proof (cases "indices a ! 0 < indices b ! 0")
  case True
  with assms show ?thesis
    by (simp add: BasicStepRow_xor_def BasicStepRow_xor_assign_def raised_def xor_bytes_map2)
next
  case False
  have "xor_bytes (hash b) (hash a) = xor_bytes (hash a) (hash b)"
    using assms(1) by (intro xor_bytes_commute) simp
  also have "\<dots> = map2 (XOR) (hash a) (hash b)"
    using assms(1) by (rule xor_bytes_map2)
  finally have "xor_bytes (hash b) (hash a) = map2 (XOR) (hash a) (hash b)" .
  with False assms show ?thesis
    by (simp add: BasicStepRow_xor_def BasicStepRow_xor_assign_def raised_def)
qed

text \<open>
  C5. For two rows with equal hash length and equal index-history length, \<^verbatim>\<open>a ^ b\<close> is
  the row whose hash is the byte-wise xor and whose index history is the concatenation
  of the two, the operand with the smaller first index first (\<open>b\<close> first when
  \<^verbatim>\<open>a.indices[0] >= b.indices[0]\<close>).
\<close>

theorem BasicStepRow_xor_canonical:
  assumes "length (hash a) = length (hash b)"
    and "length (indices a) = length (indices b)"
  shows "BasicStepRow_xor a b =
     Inr \<lparr>hash = map2 (XOR) (hash a) (hash b),
          indices = (if indices a ! 0 < indices b ! 0 then indices a @ indices b
                     else indices b @ indices a)\<rparr>"
  using assms by (rule BasicStepRow_xor_eq)

theorem BasicStepRow_xor_canonical_witness:
  "BasicStepRow_xor \<lparr>hash = [1, 2], indices = [5]\<rparr> \<lparr>hash = [3, 4], indices = [2]\<rparr> =
     Inr \<lparr>hash = [2, 6], indices = [2, 5]\<rparr>"
  using BasicStepRow_xor_canonical
    [of "\<lparr>hash = [1, 2], indices = [5]\<rparr>" "\<lparr>hash = [3, 4], indices = [2]\<rparr>"]
  by simp

text \<open>
  C6. \<^verbatim>\<open>operator^=\<close>, of \<^verbatim>\<open>BasicStepRow\<close> and of \<^verbatim>\<open>TruncatedStepRow\<close>, throws exactly when
  the hash lengths differ or the index-history lengths differ, and when it throws the
  left operand is unchanged.
\<close>

theorem xor_assign_raises:
  "(snd (BasicStepRow_xor_assign this a) \<noteq> None \<longleftrightarrow>
      length (hash a) \<noteq> length (hash this) \<or> length (indices a) \<noteq> length (indices this))
   \<and> (snd (BasicStepRow_xor_assign this a) \<noteq> None \<longrightarrow>
      fst (BasicStepRow_xor_assign this a) = this)
   \<and> (snd (TruncatedStepRow_xor_assign that b) \<noteq> None \<longleftrightarrow>
      length (hash b) \<noteq> length (hash that) \<or> length (indices b) \<noteq> length (indices that))
   \<and> (snd (TruncatedStepRow_xor_assign that b) \<noteq> None \<longrightarrow>
      fst (TruncatedStepRow_xor_assign that b) = that)"
  by (simp add: BasicStepRow_xor_assign_def TruncatedStepRow_xor_assign_def)

theorem xor_assign_raises_witness:
  "snd (BasicStepRow_xor_assign \<lparr>hash = [1], indices = [0]\<rparr> \<lparr>hash = [1, 2], indices = [1]\<rparr>)
     \<noteq> None
   \<and> fst (BasicStepRow_xor_assign \<lparr>hash = [1], indices = [0]\<rparr> \<lparr>hash = [1, 2], indices = [1]\<rparr>)
     = \<lparr>hash = [1], indices = [0]\<rparr>
   \<and> snd (TruncatedStepRow_xor_assign \<lparr>hash = [1], indices = [0], full_indices = [0]\<rparr>
            \<lparr>hash = [2], indices = [1, 1], full_indices = [2, 3]\<rparr>) \<noteq> None
   \<and> fst (TruncatedStepRow_xor_assign \<lparr>hash = [1], indices = [0], full_indices = [0]\<rparr>
            \<lparr>hash = [2], indices = [1, 1], full_indices = [2, 3]\<rparr>)
     = \<lparr>hash = [1], indices = [0], full_indices = [0]\<rparr>"
  using xor_assign_raises
    [of "\<lparr>hash = [1], indices = [0]\<rparr>" "\<lparr>hash = [1, 2], indices = [1]\<rparr>"
        "\<lparr>hash = [1], indices = [0], full_indices = [0]\<rparr>"
        "\<lparr>hash = [2], indices = [1, 1], full_indices = [2, 3]\<rparr>"]
  by simp

text \<open>
  The truncating constructor is defined exactly for \<^verbatim>\<open>ilen\<close> from 8 to 39.
\<close>

lemma TruncatedStepRow_ctor_undefined:
  assumes "ilen < 8 \<or> 40 \<le> ilen"
  shows "TruncatedStepRow_ctor n base_state i ilen = Inl undefined_behaviour"
proof -
  from assms have "32 \<le> unat (ilen - 8)" by unat_arith auto
  then show ?thesis by (simp add: TruncatedStepRow_ctor_def)
qed

lemma TruncatedStepRow_ctor_defined:
  assumes "8 \<le> ilen" and "ilen < 40"
  shows "TruncatedStepRow_ctor n base_state i ilen =
     Inr \<lparr>hash = leaf_hash n base_state i,
          indices = [ucast (drop_bit (unat ilen - 8) i AND 0xff)],
          full_indices = [i]\<rparr>"
proof -
  from assms have "unat (ilen - 8) = unat ilen - 8" by unat_arith
  moreover from assms have "unat (ilen - 8) < 32" by unat_arith
  ultimately show ?thesis by (simp add: TruncatedStepRow_ctor_def)
qed

subsection \<open>The cross-merge loop of the reconstruction\<close>

lemma count_j_ge: "j \<le> count_j a B l jChecked j"
proof (induction a B l jChecked j rule: count_j.induct)
  case (1 a B l jChecked j)
  show ?case
  proof (cases "jChecked + j < length B \<and> HasCollision a (B ! (jChecked + j)) l")
    case True
    with "1.IH" have "j + 1 \<le> count_j a B l jChecked (j + 1)" by simp
    moreover from True have "count_j a B l jChecked j = count_j a B l jChecked (j + 1)"
      by (subst count_j.simps) simp
    ultimately show ?thesis by simp
  next
    case False
    then have "count_j a B l jChecked j = j"
      by (subst count_j.simps) auto
    then show ?thesis by simp
  qed
qed

lemma cross_body_advances:
  assumes "cross_body l A B (iChecked, jChecked, ic) = Inr (iChecked', jChecked', ic')"
  shows "jChecked + 1 \<le> jChecked'"
proof -
  let ?i = "count_i A (B ! jChecked) l iChecked 0"
  let ?j = "count_j (A ! iChecked) B l jChecked 1"
  have j: "1 \<le> ?j" by (rule count_j_ge)
  show ?thesis
  proof (cases "for_each [0 ..< ?i] (\<lambda>l'.
                  for_each [0 ..< ?j] (\<lambda>m. cross_emit l A B iChecked jChecked l' m)) ic")
    case (Inl e)
    with assms show ?thesis by (simp add: cross_body_def)
  next
    case (Inr ic1)
    with assms j show ?thesis
      by (simp add: cross_body_def Let_def split: if_splits)
  qed
qed

lemma cross_loop_stop:
  "\<not> (iChecked < length A \<and> jChecked < length B) \<Longrightarrow>
   cross_loop l A B (iChecked, jChecked, ic) = Some (Inr ic)"
  by (subst cross_loop.simps) auto

lemma cross_loop_terminates: "\<exists>r. cross_loop l A B s = Some r"
proof (induction "length B - fst (snd s)" arbitrary: s rule: less_induct)
  case less
  obtain iChecked jChecked ic where s: "s = (iChecked, jChecked, ic)" by (cases s) auto
  show ?case
  proof (cases "iChecked < length A \<and> jChecked < length B")
    case False
    then show ?thesis unfolding s by (simp add: cross_loop_stop)
  next
    case True
    show ?thesis
    proof (cases "cross_body l A B s")
      case (Inl e)
      with True s have "cross_loop l A B s = Some (Inl e)"
        by (subst cross_loop.simps) simp
      then show ?thesis by blast
    next
      case (Inr s')
      obtain iChecked' jChecked' ic' where s': "s' = (iChecked', jChecked', ic')"
        by (cases s') auto
      from Inr s s' have "jChecked + 1 \<le> jChecked'"
        using cross_body_advances by blast
      with True have "length B - fst (snd s') < length B - fst (snd s)"
        unfolding s s' by auto
      then obtain r where "cross_loop l A B s' = Some r" using less by blast
      moreover from True s Inr have "cross_loop l A B s = cross_loop l A B s'"
        by (subst cross_loop.simps) simp
      ultimately show ?thesis by simp
    qed
  qed
qed

lemma cross_pairs_terminates: "\<exists>r. cross_pairs l X = Some r"
proof (induction l X rule: cross_pairs.induct)
  case (3 l A B X)
  obtain r1 where r1: "cross_loop l A B (0, 0, []) = Some r1"
    using cross_loop_terminates by blast
  show ?case
  proof (cases r1)
    case (Inl e)
    with r1 show ?thesis by simp
  next
    case (Inr ic)
    with 3 r1 obtain r2 where r2: "cross_pairs l X = Some r2" by blast
    with r1 Inr show ?thesis by (cases r2) simp_all
  qed
qed simp_all

lemma recreate_levels_terminates: "\<exists>r. recreate_levels srt l X = Some r"
proof (induction srt l X rule: recreate_levels.induct)
  case (1 srt l X)
  let ?Xs = "map (\<lambda>Xv. if length Xv = 0 then Xv else srt Xv) X"
  show ?case
  proof (cases "length X > 1")
    case False
    then show ?thesis by (subst recreate_levels.simps) simp
  next
    case True
    obtain r where r: "cross_pairs l ?Xs = Some r" using cross_pairs_terminates by blast
    show ?thesis
    proof (cases r)
      case (Inl e)
      with True r show ?thesis by (subst recreate_levels.simps) simp
    next
      case (Inr Xc)
      with True r "1.IH" obtain r' where "recreate_levels srt l Xc = Some r'" by blast
      with True r Inr show ?thesis by (subst recreate_levels.simps) simp
    qed
  qed
qed

lemma cross_pairs_empty:
  "cross_pairs l X = Some (Inr Xc) \<Longrightarrow> [] \<in> set X \<Longrightarrow> [] \<in> set Xc"
proof (induction l X arbitrary: Xc rule: cross_pairs.induct)
  case (3 l A B X)
  from "3.prems"(1) obtain ic Xc' where
    ic: "cross_loop l A B (0, 0, []) = Some (Inr ic)" and
    Xc': "cross_pairs l X = Some (Inr Xc')" and Xc: "Xc = ic # Xc'"
    by (auto split: option.splits sum.splits)
  show ?case
  proof (cases "A = [] \<or> B = []")
    case True
    then have "cross_loop l A B (0, 0, []) = Some (Inr [])"
      by (intro cross_loop_stop) auto
    with ic Xc show ?thesis by simp
  next
    case False
    with "3.prems"(2) have "[] \<in> set X" by auto
    with "3.IH" ic Xc' have "[] \<in> set Xc'" by blast
    with Xc show ?thesis by simp
  qed
qed (auto split: if_splits)

lemma recreate_levels_empty:
  "recreate_levels srt l X = Some (Inr rows) \<Longrightarrow> [] \<in> set X \<Longrightarrow> rows = []"
proof (induction srt l X rule: recreate_levels.induct)
  case (1 srt l X)
  let ?Xs = "map (\<lambda>Xv. if length Xv = 0 then Xv else srt Xv) X"
  show ?case
  proof (cases "length X > 1")
    case False
    with "1.prems"(2) have X: "X = [[]]"
      by (cases X) auto
    with "1.prems"(1) show ?thesis
      by (subst (asm) recreate_levels.simps) simp
  next
    case True
    with "1.prems"(1) obtain Xc where
      Xc: "cross_pairs l ?Xs = Some (Inr Xc)" and rec: "recreate_levels srt l Xc = Some (Inr rows)"
      by (subst (asm) recreate_levels.simps) (auto split: option.splits sum.splits)
    from "1.prems"(2) have "[] \<in> set ?Xs" by force
    with Xc have "[] \<in> set Xc" by (rule cross_pairs_empty)
    with "1.IH" True Xc rec show ?thesis by blast
  qed
qed

text \<open>
  C9. The cross-merge loop returns for every pair of lists and every state; each pass of
  its body that completes advances \<^verbatim>\<open>jChecked\<close> by at least 1; with an empty list on
  either side the loop body is never entered and the merged list is empty; the level
  loop returns as well, and when one of the lists is empty the rows it returns are none,
  so that \<open>recreate\<close> inserts nothing into \<^verbatim>\<open>solns\<close>.
\<close>

theorem cross_merge_terminates:
  "(\<exists>r. cross_loop l A B s = Some r)
   \<and> (cross_body l A B (iChecked, jChecked, ic) = Inr (iChecked', jChecked', ic')
        \<longrightarrow> jChecked + 1 \<le> jChecked')
   \<and> cross_loop l [] B (0, 0, []) = Some (Inr [])
   \<and> cross_loop l A [] (0, 0, []) = Some (Inr [])
   \<and> (\<exists>r. recreate_levels srt l X = Some r)
   \<and> ([] \<in> set X \<and> recreate_levels srt l X = Some (Inr rows) \<longrightarrow> rows = [])"
  using cross_loop_terminates [of l A B s] cross_body_advances [of l A B iChecked jChecked ic]
    recreate_levels_terminates [of srt l X] recreate_levels_empty [of srt l X rows]
  by (simp add: cross_loop_stop)

theorem cross_merge_terminates_witness:
  "cross_loop 1 [\<lparr>hash = [0, 1], indices = [0]\<rparr>] [\<lparr>hash = [1, 1], indices = [4]\<rparr>]
          (0, 0, []) = Some (Inr [])
   \<and> cross_body 1 [\<lparr>hash = [0, 1], indices = [0]\<rparr>] [\<lparr>hash = [1, 1], indices = [4]\<rparr>]
          (0, 0, []) = Inr (0, 1, [])
   \<and> (0::nat) + 1 \<le> 1
   \<and> [] \<in> set [[], [\<lparr>hash = [1, 1], indices = [4::32 word]\<rparr>]]
   \<and> recreate_levels row_sort 1 [[], [\<lparr>hash = [1, 1], indices = [4]\<rparr>]] = Some (Inr [])"
proof -
  let ?a = "\<lparr>hash = [0, 1], indices = [0::32 word]\<rparr>"
  let ?b = "\<lparr>hash = [1, 1], indices = [4::32 word]\<rparr>"
  have body: "cross_body 1 [?a] [?b] (0, 0, []) = Inr (0, 1, [])"
    by (simp add: cross_body_def count_i.simps count_j.simps HasCollision_def)
  have lev: "recreate_levels row_sort 1 [[], [?b]] = Some (Inr [])"
    by (simp add: recreate_levels.simps row_sort_def cross_loop_stop)
  have "cross_loop 1 [?a] [?b] (0, 0, []) = cross_loop 1 [?a] [?b] (0, 1, [])"
    using body by (subst cross_loop.simps) simp
  also have "\<dots> = Some (Inr [])" by (rule cross_loop_stop) simp
  finally have loop: "cross_loop 1 [?a] [?b] (0, 0, []) = Some (Inr [])" .
  from cross_merge_terminates [of 1 "[?a]" "[?b]" "(0, 0, [])" 0 0 "[]" 0 1 "[]"
      row_sort "[[], [?b]]" "[]"] body lev loop
  show ?thesis by simp
qed

text \<open>
  C3. For the parameters \<open>n = 16\<close>, \<open>k = 1\<close> the collision bit length is 8 and
  \<^verbatim>\<open>recreate_size\<close> is \<open>2^(8-7) = 2\<close>. For the partial solution \<open>(0, 1)\<close> the claim
  puts the leaves \<open>(1 << 1) | j\<close>, that is 2 and 3, into the second list. The source
  shifts by \<^verbatim>\<open>recreate_size\<close> instead of \<^verbatim>\<open>CollisionBitLength() - 7\<close> and builds the list
  from the leaves 4 and 5; from a collision bit length of 12 on the shift count is 32 or
  more and the behaviour is undefined.
\<close>

theorem recreate_lists_shift:
  "CollisionBitLength \<lparr>param_n = 16, param_k = 1\<rparr> = 8
   \<and> recreate_lists 16 base_state (2 ^ (CollisionBitLength \<lparr>param_n = 16, param_k = 1\<rparr> - 7)) [0, 1]
       = Inr [[BasicStepRow_ctor 16 base_state 0, BasicStepRow_ctor 16 base_state 1],
              [BasicStepRow_ctor 16 base_state 4, BasicStepRow_ctor 16 base_state 5]]
   \<and> map (\<lambda>j. push_bit (CollisionBitLength \<lparr>param_n = 16, param_k = 1\<rparr> - 7)
                 (ucast (1 :: eh_trunc)) OR (word_of_nat j :: eh_index)) [0 ..< 2] = [2, 3]
   \<and> CollisionBitLength \<lparr>param_n = 32, param_k = 1\<rparr> = 16
   \<and> recreate_lists 32 base_state (2 ^ (CollisionBitLength \<lparr>param_n = 32, param_k = 1\<rparr> - 7)) [0, 1]
       = Inl undefined_behaviour"
proof -
  have two: "[0 ..< 2] = [0, Suc 0]" by (simp add: upt_rec)
  have c8: "CollisionBitLength \<lparr>param_n = 16, param_k = 1\<rparr> = 8"
    by (simp add: CollisionBitLength_def)
  have c16: "CollisionBitLength \<lparr>param_n = 32, param_k = 1\<rparr> = 16"
    by (simp add: CollisionBitLength_def)
  have l1: "recreate_lists 16 base_state 2 [0, 1]
       = Inr [[BasicStepRow_ctor 16 base_state 0, BasicStepRow_ctor 16 base_state 1],
              [BasicStepRow_ctor 16 base_state 4, BasicStepRow_ctor 16 base_state 5]]"
    by (simp add: recreate_lists_def recreate_list_def untruncate_def two)
  have l2: "recreate_list 32 base_state 512 p = Inl undefined_behaviour" for p
    by (simp add: recreate_list_def untruncate_def upt_conv_Cons)
  have l3: "recreate_lists 32 base_state 512 [0, 1] = Inl undefined_behaviour"
    by (simp add: recreate_lists_def l2 two)
  show ?thesis
    by (simp add: c8 c16 l1 l3 two)
qed

subsection \<open>In-place compaction\<close>

lemma store_tuples_frame:
  "store_tuples X posFree Xc bound = (X', posFree', Xc') \<Longrightarrow>
   posFree \<le> posFree' \<and> (posFree \<le> bound \<longrightarrow> posFree' \<le> bound) \<and>
   (\<forall>q. q < posFree \<or> posFree' \<le> q \<longrightarrow> X' ! q = X ! q)"
proof (induction X posFree Xc bound rule: store_tuples.induct)
  case (1 X posFree Xc bound)
  show ?case
  proof (cases "posFree < bound \<and> Xc \<noteq> []")
    case True
    with "1.prems" have
      "store_tuples (X[posFree := last Xc]) (posFree + 1) (butlast Xc) bound = (X', posFree', Xc')"
      by (simp add: store_tuples_step)
    with "1.IH" True have ih:
      "posFree + 1 \<le> posFree' \<and> (posFree + 1 \<le> bound \<longrightarrow> posFree' \<le> bound) \<and>
       (\<forall>q. q < posFree + 1 \<or> posFree' \<le> q \<longrightarrow> X' ! q = X[posFree := last Xc] ! q)"
      by blast
    have "X' ! q = X ! q" if "q < posFree \<or> posFree' \<le> q" for q
    proof -
      from that ih have "q \<noteq> posFree" by auto
      moreover from that ih have "X' ! q = X[posFree := last Xc] ! q" by auto
      ultimately show ?thesis by simp
    qed
    with ih True show ?thesis by auto
  next
    case False
    with "1.prems" show ?thesis by (simp add: store_tuples_stop)
  qed
qed

lemma scan_body_result:
  assumes "scan_body chk xr l (X, i, posFree, Xc) = Inr s'"
  obtains Xc1 X' posFree' Xc' where
    "calc_tuples chk xr l X i (find_run X l i 1) Xc = Inr Xc1"
    "store_tuples X posFree Xc1 (i + find_run X l i 1) = (X', posFree', Xc')"
    "s' = (X', i + find_run X l i 1, posFree', Xc')"
proof (cases "calc_tuples chk xr l X i (find_run X l i 1) Xc")
  case (Inl e)
  with assms show ?thesis by (simp add: scan_body_def)
next
  case (Inr Xc1)
  obtain X' posFree' Xc' where
    st: "store_tuples X posFree Xc1 (i + find_run X l i 1) = (X', posFree', Xc')"
    by (cases "store_tuples X posFree Xc1 (i + find_run X l i 1)") auto
  with assms Inr have "s' = (X', i + find_run X l i 1, posFree', Xc')"
    by (simp add: scan_body_def)
  with Inr st that show ?thesis by blast
qed

lemma scan_reach_invariant:
  "scan_reach chk xr l X0 s \<Longrightarrow>
   fst (snd (snd s)) \<le> fst (snd s) \<and> fst (snd s) \<le> length X0 \<and>
   length (fst s) = length X0 \<and> (\<forall>q. fst (snd s) \<le> q \<longrightarrow> fst s ! q = X0 ! q)"
proof (induction rule: scan_reach.induct)
  case start
  show ?case by simp
next
  case (step s s')
  obtain X i posFree Xc where s: "s = (X, i, posFree, Xc)" by (cases s) auto
  let ?j = "find_run X l i 1"
  from step.hyps(3) s obtain Xc1 X' posFree' Xc' where
    st: "store_tuples X posFree Xc1 (i + ?j) = (X', posFree', Xc')" and
    s': "s' = (X', i + ?j, posFree', Xc')"
    by (auto elim: scan_body_result)
  from step.IH s have inv: "posFree \<le> i" "i \<le> length X0" "length X = length X0"
    "\<forall>q. i \<le> q \<longrightarrow> X ! q = X0 ! q" by simp_all
  from step.hyps(2) s have "i + 1 \<le> length X" by simp
  then have le: "i + ?j \<le> length X" by (rule find_run_le)
  from store_tuples_frame [OF st] inv(1) have
    fr: "posFree' \<le> i + ?j" "\<forall>q. posFree' \<le> q \<longrightarrow> X' ! q = X ! q" by auto
  have "X' ! q = X0 ! q" if "i + ?j \<le> q" for q
    using that fr inv(4) by auto
  moreover from st have "length X' = length X" by (rule store_tuples_length)
  ultimately show ?case using s' fr(1) le inv(3) by simp
qed

lemma scan_loop_reach:
  "scan_reach chk xr l X0 s \<Longrightarrow> scan_loop chk xr l s = Inr s' \<Longrightarrow> scan_reach chk xr l X0 s'"
proof (induction chk xr l s rule: scan_loop.induct)
  case (1 chk xr l s)
  show ?case
  proof (cases "fst (snd s) < length (fst s) - 1")
    case False
    with "1.prems" show ?thesis by (subst (asm) scan_loop.simps) simp
  next
    case True
    with "1.prems"(2) obtain s1 where
      b: "scan_body chk xr l s = Inr s1" and r: "scan_loop chk xr l s1 = Inr s'"
      by (subst (asm) scan_loop.simps) (auto split: sum.splits)
    from "1.prems"(1) True b have "scan_reach chk xr l X0 s1" by (rule scan_reach.step)
    with "1.IH" True b r show ?thesis by blast
  qed
qed

text \<open>
  C10. In every state the scan loop of a round reaches, started on the sorted table
  \<open>X0\<close> (\<open>collision_round\<close> runs \<open>scan_loop\<close> from \<open>(srt X, 0, 0, [])\<close>, for the basic
  and for the truncated rows alike): the write cursor is not beyond the scan cursor,
  and every row from the scan cursor on is still the row of the sorted table. In the
  pass that follows, whatever 2c has put into \<^verbatim>\<open>Xc\<close>, the store loop 2d leaves
  \<^verbatim>\<open>posFree\<close> at most at \<^verbatim>\<open>i+j\<close> and changes no slot outside \<open>[posFree, posFree')\<close>,
  so only slots below the scan frontier \<^verbatim>\<open>i+j\<close> are written; the drain 2e after the
  loop stays inside the table.
\<close>

theorem compaction_keeps_unscanned_rows:
  assumes "scan_reach chk xr l X0 (X, i, posFree, Xc)"
  shows "posFree \<le> i \<and> i \<le> length X0 \<and> length X = length X0
     \<and> (\<forall>q. i \<le> q \<longrightarrow> X ! q = X0 ! q)
     \<and> (\<forall>Xc1 X' posFree' Xc'.
          i < length X - 1 \<and>
          store_tuples X posFree Xc1 (i + find_run X l i 1) = (X', posFree', Xc')
          \<longrightarrow> posFree' \<le> i + find_run X l i 1 \<and> i + find_run X l i 1 \<le> length X
              \<and> (\<forall>q. q < posFree \<or> posFree' \<le> q \<longrightarrow> X' ! q = X ! q))
     \<and> (\<forall>X' posFree' Xc'.
          store_tuples X posFree Xc (length X) = (X', posFree', Xc')
          \<longrightarrow> posFree' \<le> length X \<and> length X' = length X)"
proof -
  from scan_reach_invariant [OF assms] have inv: "posFree \<le> i" "i \<le> length X0"
    "length X = length X0" "\<forall>q. i \<le> q \<longrightarrow> X ! q = X0 ! q" by simp_all
  have d: "posFree' \<le> i + find_run X l i 1 \<and> i + find_run X l i 1 \<le> length X
      \<and> (\<forall>q. q < posFree \<or> posFree' \<le> q \<longrightarrow> X' ! q = X ! q)"
    if "i < length X - 1"
      and st: "store_tuples X posFree Xc1 (i + find_run X l i 1) = (X', posFree', Xc')"
    for Xc1 X' posFree' Xc'
  proof -
    from that(1) have "i + 1 \<le> length X" by simp
    then have "i + find_run X l i 1 \<le> length X" by (rule find_run_le)
    with store_tuples_frame [OF st] inv(1) show ?thesis by auto
  qed
  have e: "posFree' \<le> length X \<and> length X' = length X"
    if st: "store_tuples X posFree Xc (length X) = (X', posFree', Xc')" for X' posFree' Xc'
    using store_tuples_frame [OF st] store_tuples_length [OF st] inv by auto
  from inv d e show ?thesis by blast
qed

theorem compaction_keeps_unscanned_rows_witness:
  "scan_reach DistinctIndices_rows BasicStepRow_xor 1
     [\<lparr>hash = [0, 1], indices = [0]\<rparr>, \<lparr>hash = [0, 2], indices = [1]\<rparr>,
      \<lparr>hash = [1, 0], indices = [2]\<rparr>]
     ([\<lparr>hash = [3], indices = [0, 1]\<rparr>, \<lparr>hash = [0, 2], indices = [1]\<rparr>,
       \<lparr>hash = [1, 0], indices = [2]\<rparr>], 2, 1, [])
   \<and> (1::nat) \<le> 2 \<and> (2::nat) \<le> 3
   \<and> [\<lparr>hash = [3], indices = [0, 1]\<rparr>, \<lparr>hash = [0, 2], indices = [1]\<rparr>,
       \<lparr>hash = [1, 0], indices = [2::32 word]\<rparr>] ! 2
     = [\<lparr>hash = [0, 1], indices = [0]\<rparr>, \<lparr>hash = [0, 2], indices = [1]\<rparr>,
        \<lparr>hash = [1, 0], indices = [2]\<rparr>] ! 2"
proof -
  let ?r0 = "\<lparr>hash = [0, 1], indices = [0::32 word]\<rparr>"
  let ?r1 = "\<lparr>hash = [0, 2], indices = [1::32 word]\<rparr>"
  let ?r2 = "\<lparr>hash = [1, 0], indices = [2::32 word]\<rparr>"
  let ?t = "\<lparr>hash = [3], indices = [0, 1::32 word]\<rparr>"
  have two: "[0 ..< 2] = [0, Suc 0]" by (simp add: upt_rec)
  have d: "DistinctIndices_rows ?r0 ?r1"
    by (simp add: DistinctIndices_rows_def DistinctIndices_def di_while.simps)
  have x: "BasicStepRow_xor ?r0 ?r1 = Inr \<lparr>hash = [0, 3], indices = [0, 1]\<rparr>"
    by (simp add: BasicStepRow_xor_def BasicStepRow_xor_assign_def raised_def xor_bytes_def two)
  have b: "scan_body DistinctIndices_rows BasicStepRow_xor 1 ([?r0, ?r1, ?r2], 0, 0, [])
      = Inr ([?t, ?r1, ?r2], 2, 1, [])"
    by (simp add: scan_body_def find_run.simps HasCollision_def calc_tuples_def emit_tuple_def
        d x TrimHash_def upt_rec store_tuples.simps)
  have r: "scan_reach DistinctIndices_rows BasicStepRow_xor 1 [?r0, ?r1, ?r2]
      ([?t, ?r1, ?r2], 2, 1, [])"
    by (rule scan_reach.step [OF scan_reach.start _ b]) simp
  from compaction_keeps_unscanned_rows [OF r] r show ?thesis by simp
qed

subsection \<open>The distinct-index test decides disjointness\<close>

lemma di_while_None:
  "di_while aSrt b i = None \<Longrightarrow> i < length aSrt \<Longrightarrow> \<forall>k. i \<le> k \<and> k < length aSrt \<longrightarrow> aSrt ! k < b"
proof (induction aSrt b i rule: di_while.induct)
  case (1 aSrt b i)
  from "1.prems" have lt: "aSrt ! i < b"
    by (subst (asm) di_while.simps) (simp split: if_splits)
  show ?case
  proof (cases "i + 1 = length aSrt")
    case True
    with lt "1.prems"(2) show ?thesis
      by (metis Suc_eq_plus1 le_antisym less_Suc_eq_le)
  next
    case False
    with "1.prems" lt have n: "di_while aSrt b (i + 1) = None" and "i + 1 < length aSrt"
      by (subst (asm) di_while.simps, simp)+
    with "1.IH" "1.prems"(2) lt False have
      "\<forall>k. i + 1 \<le> k \<and> k < length aSrt \<longrightarrow> aSrt ! k < b" by blast
    with lt show ?thesis
      by (metis Suc_eq_plus1 Suc_leI le_neq_implies_less)
  qed
qed

lemma di_while_Some:
  "di_while aSrt b i = Some i' \<Longrightarrow> i < length aSrt \<Longrightarrow>
   i \<le> i' \<and> i' < length aSrt \<and> (\<forall>k. i \<le> k \<and> k < i' \<longrightarrow> aSrt ! k < b) \<and> \<not> aSrt ! i' < b"
proof (induction aSrt b i rule: di_while.induct)
  case (1 aSrt b i)
  show ?case
  proof (cases "aSrt ! i < b")
    case False
    with "1.prems" have "i' = i"
      by (subst (asm) di_while.simps) simp
    with False "1.prems"(2) show ?thesis by auto
  next
    case True
    with "1.prems" have ne: "i + 1 \<noteq> length aSrt" and r: "di_while aSrt b (i + 1) = Some i'"
      by (subst (asm) di_while.simps, simp split: if_splits)+
    from ne "1.prems"(2) have "i + 1 < length aSrt" by simp
    with "1.IH" "1.prems"(2) True ne r have
      ih: "i + 1 \<le> i' \<and> i' < length aSrt \<and> (\<forall>k. i + 1 \<le> k \<and> k < i' \<longrightarrow> aSrt ! k < b)
           \<and> \<not> aSrt ! i' < b" by blast
    have "aSrt ! k < b" if "i \<le> k \<and> k < i'" for k
      using that ih True by (cases "k = i") auto
    with ih show ?thesis by auto
  qed
qed

lemma di_for_disjoint:
  "sorted aSrt \<Longrightarrow> sorted bSrt \<Longrightarrow> i < length aSrt \<Longrightarrow>
   \<forall>k y. k < i \<and> y \<in> set bSrt \<longrightarrow> aSrt ! k < y \<Longrightarrow>
   di_for aSrt bSrt i \<longleftrightarrow> set aSrt \<inter> set bSrt = {}"
proof (induction bSrt arbitrary: i)
  case Nil
  show ?case by simp
next
  case (Cons b bSrt)
  from Cons.prems(2) have sb: "sorted bSrt" and ble: "\<forall>y \<in> set bSrt. b \<le> y" by simp_all
  show ?case
  proof (cases "di_while aSrt b i")
    case None
    from di_while_None [OF None Cons.prems(3)] have
      hi: "\<forall>k. i \<le> k \<and> k < length aSrt \<longrightarrow> aSrt ! k < b" .
    have "x \<notin> set (b # bSrt)" if "x \<in> set aSrt" for x
    proof -
      from that obtain k where k: "k < length aSrt" "x = aSrt ! k"
        by (auto simp: in_set_conv_nth)
      have "\<forall>y \<in> set (b # bSrt). x < y"
      proof (cases "k < i")
        case True
        with Cons.prems(4) k show ?thesis by blast
      next
        case False
        with hi k have "x < b" by simp
        with ble show ?thesis by auto
      qed
      then show ?thesis by auto
    qed
    then have "set aSrt \<inter> set (b # bSrt) = {}" by blast
    with None show ?thesis by simp
  next
    case (Some i')
    from di_while_Some [OF Some Cons.prems(3)] have
      i': "i \<le> i'" "i' < length aSrt" "\<forall>k. i \<le> k \<and> k < i' \<longrightarrow> aSrt ! k < b"
         "\<not> aSrt ! i' < b" by simp_all
    show ?thesis
    proof (cases "aSrt ! i' = b")
      case True
      with i'(2) have "b \<in> set aSrt" by (metis nth_mem)
      with Some True show ?thesis by auto
    next
      case False
      with i'(4) have gt: "b < aSrt ! i'" by simp
      have low: "aSrt ! k < b" if "k < i'" for k
      proof (cases "k < i")
        case True
        with Cons.prems(4) show ?thesis by simp
      next
        case False
        with that i'(3) show ?thesis by simp
      qed
      have pre: "\<forall>k y. k < i' \<and> y \<in> set bSrt \<longrightarrow> aSrt ! k < y"
        using low ble by (meson less_le_trans)
      have "b \<notin> set aSrt"
      proof
        assume "b \<in> set aSrt"
        then obtain k where k: "k < length aSrt" "b = aSrt ! k"
          by (auto simp: in_set_conv_nth)
        show False
        proof (cases "k < i'")
          case True
          with low k show False by auto
        next
          case False
          then have "i' \<le> k" by simp
          with Cons.prems(1) k(1) have "aSrt ! i' \<le> aSrt ! k"
            by (simp add: sorted_nth_mono)
          with gt k show False by simp
        qed
      qed
      moreover from Cons.IH [OF Cons.prems(1) sb i'(2) pre] have
        "di_for aSrt bSrt i' \<longleftrightarrow> set aSrt \<inter> set bSrt = {}" .
      ultimately show ?thesis using Some False by auto
    qed
  qed
qed

lemma DistinctIndices_iff:
  "a \<noteq> [] \<Longrightarrow> DistinctIndices a b \<longleftrightarrow> set a \<inter> set b = {}"
proof -
  assume "a \<noteq> []"
  then have "0 < length (sort a)" by simp
  then have "di_for (sort a) (sort b) 0 \<longleftrightarrow> set (sort a) \<inter> set (sort b) = {}"
    by (intro di_for_disjoint) simp_all
  then show ?thesis by (simp add: DistinctIndices_def)
qed

subsection \<open>Row operations, as list operations\<close>

lemma hash_TrimHash [simp]: "hash (TrimHash l r) = drop l (hash r)"
  by (auto simp: TrimHash_def intro!: nth_equalityI simp: add.commute)

lemma indices_TrimHash [simp]: "indices (TrimHash l r) = indices r"
  by (simp add: TrimHash_def)

lemma fold_conj: "fold (\<lambda>j res. res \<and> P j) xs acc \<longleftrightarrow> acc \<and> (\<forall>j \<in> set xs. P j)"
  by (induction xs arbitrary: acc) auto

lemma HasCollision_iff: "HasCollision a b l \<longleftrightarrow> (\<forall>j < l. hash a ! j = hash b ! j)"
  by (auto simp: HasCollision_def fold_conj)

lemma fold_or_zero:
  fixes acc :: byte
  shows "fold (\<lambda>b res. res OR b) xs acc = 0 \<longleftrightarrow> acc = 0 \<and> (\<forall>b \<in> set xs. b = 0)"
  by (induction xs arbitrary: acc) (auto simp: or_eq_0_iff)

lemma IsZero_iff: "IsZero r \<longleftrightarrow> (\<forall>b \<in> set (hash r). b = 0)"
  by (simp add: IsZero_def fold_or_zero)

lemma DistinctIndices_rows_iff:
  "indices a \<noteq> [] \<Longrightarrow> DistinctIndices_rows a b \<longleftrightarrow> set (indices a) \<inter> set (indices b) = {}"
  by (simp add: DistinctIndices_rows_def DistinctIndices_iff)

subsection \<open>The verifier on lists of rows of one shape\<close>

lemma rows_shape_Cons [simp]:
  "rows_shape h m (a # X) \<longleftrightarrow> length (hash a) = h \<and> length (indices a) = m \<and> rows_shape h m X"
  by (auto simp: rows_shape_def)

lemma rows_shape_Nil [simp]: "rows_shape h m []"
  by (simp add: rows_shape_def)

lemma verify_level_shape:
  "rows_shape h m X \<Longrightarrow> even (length X) \<Longrightarrow>
   verify_level l X = Inr None \<or>
   (\<exists>Xc. verify_level l X = Inr (Some Xc) \<and> rows_shape (h - l) (2 * m) Xc)"
proof (induction l X rule: verify_level.induct)
  case (3 l a b X)
  from "3.prems" have ab: "length (hash a) = length (hash b)" "length (indices a) = length (indices b)"
    and ha: "length (hash a) = h" "length (indices a) = m"
    and X: "rows_shape h m X" "even (length X)" by simp_all
  let ?r = "\<lparr>hash = map2 (XOR) (hash a) (hash b),
          indices = (if indices a ! 0 < indices b ! 0 then indices a @ indices b
                     else indices b @ indices a)\<rparr>"
  have x: "BasicStepRow_xor a b = Inr ?r" using ab by (rule BasicStepRow_xor_eq)
  have sh: "length (hash (TrimHash l ?r)) = h - l" "length (indices (TrimHash l ?r)) = 2 * m"
    using ab ha by auto
  show ?case
  proof (cases "\<not> HasCollision a b l \<or> IndicesBefore b a \<or> \<not> DistinctIndices_rows a b")
    case True
    then show ?thesis by auto
  next
    case False
    with "3.IH" x X have "verify_level l X = Inr None \<or>
      (\<exists>Xc. verify_level l X = Inr (Some Xc) \<and> rows_shape (h - l) (2 * m) Xc)" by blast
    with False x sh show ?thesis by auto
  qed
qed simp_all

lemma verify_level_rejects:
  "rows_shape h m X \<Longrightarrow> 0 < m \<Longrightarrow> even (length X) \<Longrightarrow> 2 * i + 1 < length X \<Longrightarrow>
   \<not> indices (X ! (2 * i)) ! 0 < indices (X ! (2 * i + 1)) ! 0 \<Longrightarrow>
   verify_level l X = Inr None"
proof (induction l X arbitrary: i rule: verify_level.induct)
  case (3 l a b X)
  from "3.prems" have ab: "length (hash a) = length (hash b)" "length (indices a) = length (indices b)"
    and ha: "length (indices a) = m" "length (indices b) = m"
    and X: "rows_shape h m X" "even (length X)" by simp_all
  have x: "BasicStepRow_xor a b = Inr \<lparr>hash = map2 (XOR) (hash a) (hash b),
          indices = (if indices a ! 0 < indices b ! 0 then indices a @ indices b
                     else indices b @ indices a)\<rparr>" using ab by (rule BasicStepRow_xor_eq)
  show ?case
  proof (cases i)
    case 0
    with "3.prems"(5) have nlt: "\<not> indices a ! 0 < indices b ! 0" by simp
    show ?thesis
    proof (cases "IndicesBefore b a")
      case True
      then show ?thesis by simp
    next
      case False
      with nlt have eq: "indices a ! 0 = indices b ! 0"
        by (simp add: IndicesBefore_def)
      from ha "3.prems"(2) have ne: "indices a \<noteq> []" "indices b \<noteq> []" by auto
      then have "indices a ! 0 \<in> set (indices a)" "indices b ! 0 \<in> set (indices b)" by simp_all
      with eq have "set (indices a) \<inter> set (indices b) \<noteq> {}" by auto
      with ne have "\<not> DistinctIndices_rows a b" by (simp add: DistinctIndices_rows_iff)
      then show ?thesis by simp
    qed
  next
    case (Suc i')
    with "3.prems"(4,5) have "2 * i' + 1 < length X"
      "\<not> indices (X ! (2 * i')) ! 0 < indices (X ! (2 * i' + 1)) ! 0" by simp_all
    with "3.IH" x X "3.prems"(2) have
      "\<not> (\<not> HasCollision a b l) \<Longrightarrow> \<not> IndicesBefore b a \<Longrightarrow> \<not> (\<not> DistinctIndices_rows a b) \<Longrightarrow>
       verify_level l X = Inr None" by blast
    with x show ?thesis by auto
  qed
qed simp_all

lemma verify_levels_length:
  "verify_levels l t X0 = Inr (Some X) \<Longrightarrow> length X0 = 2 ^ t * length X"
proof (induction t arbitrary: X0)
  case 0
  then show ?case by simp
next
  case (Suc t)
  from Suc.prems(1) obtain Xc where
    lv: "verify_level l X0 = Inr (Some Xc)" and rest: "verify_levels l t Xc = Inr (Some X)"
    by (auto split: sum.splits option.splits)
  from lv have "length X0 = 2 * length Xc" by (rule verify_level_length)
  with Suc.IH [OF rest] show ?case by simp
qed

lemma verify_levels_shape:
  "verify_levels l t X0 = Inr (Some X) \<Longrightarrow> rows_shape h m X0 \<Longrightarrow>
   rows_shape (h - t * l) (m * 2 ^ t) X"
proof (induction t arbitrary: X0 h m)
  case 0
  then show ?case by simp
next
  case (Suc t)
  from Suc.prems(1) obtain Xc where
    lv: "verify_level l X0 = Inr (Some Xc)" and rest: "verify_levels l t Xc = Inr (Some X)"
    by (auto split: sum.splits option.splits)
  from lv have "length X0 = 2 * length Xc" by (rule verify_level_length)
  then have "even (length X0)" by simp
  with verify_level_shape [OF Suc.prems(2), of l] lv have sh: "rows_shape (h - l) (2 * m) Xc"
    by auto
  have e: "2 * m * 2 ^ t = m * 2 ^ Suc t" by simp
  have e2: "h - l - t * l = h - Suc t * l" by simp
  from Suc.IH [OF rest sh] show ?case unfolding e e2 .
qed

lemma verify_loop_skip:
  "verify_levels l t X0 = Inr (Some X) \<Longrightarrow> 1 < length X \<Longrightarrow>
   verify_loop l X0 = verify_loop l X"
proof (induction t arbitrary: X0)
  case 0
  then show ?case by simp
next
  case (Suc t)
  from Suc.prems(1) obtain Xc where
    lv: "verify_level l X0 = Inr (Some Xc)" and rest: "verify_levels l t Xc = Inr (Some X)"
    by (auto split: sum.splits option.splits)
  from lv have "length X0 = 2 * length Xc" by (rule verify_level_length)
  moreover from verify_levels_length [OF rest] Suc.prems(2) have "0 < length Xc"
    by (cases "length Xc") auto
  ultimately have "1 < length X0" by linarith
  with lv have "verify_loop l X0 = verify_loop l Xc"
    by (subst verify_loop.simps) simp
  with Suc.IH [OF rest Suc.prems(2)] show ?case by simp
qed


text \<open>
  C7. Take a candidate solution of \<open>2^k\<close> indices (with \<open>k < 32\<close>, so that
  \<^verbatim>\<open>soln_size\<close> is defined) and the rows \<open>X\<close> the verifier holds after any number \<open>t\<close>
  of passes of its loop. If some pair \<open>X[2i], X[2i+1]\<close> of that level has a left row
  whose first index is not strictly less than the right row's first index,
  \<^verbatim>\<open>IsValidSolution\<close> returns false.
\<close>

theorem IsValidSolution_rejects_unordered_pair:
  assumes k: "unat (param_k eh) < 32"
    and len: "length soln = 2 ^ unat (param_k eh)"
    and lv: "verify_levels (CollisionByteLength eh) t
               (map (BasicStepRow_ctor (param_n eh) base_state) soln) = Inr (Some X)"
    and i: "2 * i + 1 < length X"
    and unordered: "\<not> indices (X ! (2 * i)) ! 0 < indices (X ! (2 * i + 1)) ! 0"
  shows "IsValidSolution eh base_state soln = Inr False"
proof -
  let ?l = "CollisionByteLength eh"
  let ?X0 = "map (BasicStepRow_ctor (param_n eh) base_state) soln"
  have sh0: "rows_shape (unat (param_n eh div 8)) 1 ?X0"
    by (auto simp: rows_shape_def BasicStepRow_ctor_def leaf_hash_def)
  from verify_levels_shape [OF lv sh0] have
    sh: "rows_shape (unat (param_n eh div 8) - t * ?l) (1 * 2 ^ t) X" .
  from verify_levels_length [OF lv] len have l2: "2 ^ unat (param_k eh) = 2 ^ t * length X"
    by simp
  have "even (length X)"
  proof -
    let ?k = "unat (param_k eh)"
    have "t < ?k"
    proof (rule ccontr)
      assume "\<not> t < ?k"
      then have "(2::nat) ^ ?k \<le> 2 ^ t" by (simp add: power_increasing)
      moreover from i have "2 ^ t * 2 \<le> 2 ^ t * length X" by simp
      ultimately show False using l2 by simp
    qed
    then have "(2::nat) ^ ?k = 2 ^ t * 2 ^ (?k - t)"
      by (simp add: power_add [symmetric])
    with l2 have "length X = 2 ^ (?k - t)" by simp
    with \<open>t < ?k\<close> show ?thesis by simp
  qed
  have pos: "0 < (1::nat) * 2 ^ t" by simp
  note verify_level_rejects [OF sh pos \<open>even (length X)\<close> i unordered, of ?l]
  moreover from i have "1 < length X" by simp
  ultimately have "verify_loop ?l X = Inr False"
    by (subst verify_loop.simps) simp
  moreover from lv \<open>1 < length X\<close> have "verify_loop ?l ?X0 = verify_loop ?l X"
    by (rule verify_loop_skip)
  ultimately show ?thesis using k len by (simp add: IsValidSolution_def)
qed

theorem IsValidSolution_rejects_unordered_pair_witness:
  "IsValidSolution \<lparr>param_n = 16, param_k = 1\<rparr> (\<lambda>i p. 0) [1, 0] = Inr False"
proof -
  let ?eh = "\<lparr>param_n = 16, param_k = 1\<rparr>"
  let ?X = "map (BasicStepRow_ctor (param_n ?eh) (\<lambda>i p. 0)) [1, 0]"
  have "verify_levels (CollisionByteLength ?eh) 0 ?X = Inr (Some ?X)" by simp
  from IsValidSolution_rejects_unordered_pair [of ?eh "[1, 0]" 0 "\<lambda>i p. 0" ?X 0, OF _ _ this]
  show ?thesis by (simp add: BasicStepRow_ctor_def)
qed

subsection \<open>Loops that keep an invariant\<close>

lemma for_each_invariant:
  assumes "Inv s"
    and "\<And>x s. x \<in> set xs \<Longrightarrow> Inv s \<Longrightarrow> \<exists>s'. body x s = Inr s' \<and> Inv s'"
  shows "\<exists>s'. for_each xs body s = Inr s' \<and> Inv s'"
  using assms
proof (induction xs arbitrary: s)
  case Nil
  then show ?case by simp
next
  case (Cons x xs)
  from Cons.prems obtain s1 where s1: "body x s = Inr s1" "Inv s1" by (meson list.set_intros(1))
  from Cons.IH [OF s1(2)] Cons.prems(2) obtain s' where "for_each xs body s1 = Inr s'" "Inv s'"
    by (meson list.set_intros(2))
  with s1 show ?case by simp
qed

lemma HasCollision_sym: "HasCollision a b l \<Longrightarrow> HasCollision b a l"
  by (simp add: HasCollision_iff)

lemma HasCollision_trans: "HasCollision a b l \<Longrightarrow> HasCollision b c l \<Longrightarrow> HasCollision a c l"
  by (simp add: HasCollision_iff)

lemma find_run_collides:
  "find_run X l i j0 = j \<Longrightarrow> j0 \<le> m \<Longrightarrow> m < j \<Longrightarrow> HasCollision (X ! i) (X ! (i + m)) l"
proof (induction X l i j0 arbitrary: m rule: find_run.induct)
  case (1 X l i j0)
  show ?case
  proof (cases "i + j0 < length X \<and> HasCollision (X ! i) (X ! (i + j0)) l")
    case False
    then have "find_run X l i j0 = j0" by (rule find_run_stop)
    with "1.prems" show ?thesis by simp
  next
    case True
    then have "find_run X l i j0 = find_run X l i (j0 + 1)" by (simp add: find_run_step)
    with "1.prems" have r: "find_run X l i (j0 + 1) = j" by simp
    show ?thesis
    proof (cases "m = j0")
      case True
      with \<open>i + j0 < length X \<and> HasCollision (X ! i) (X ! (i + j0)) l\<close> show ?thesis by simp
    next
      case False
      with "1.prems"(2) have "j0 + 1 \<le> m" by simp
      with "1.IH" True r "1.prems"(3) show ?thesis by blast
    qed
  qed
qed

subsection \<open>One round turns rows of one kind into rows of the next\<close>

lemma emit_tuple_keeps:
  assumes "merge_step chk xr l P Q" "P a" "P b" "HasCollision a b l" "\<forall>x \<in> set Xc. Q x"
  shows "\<exists>Xc'. emit_tuple chk xr l a b Xc = Inr Xc' \<and> (\<forall>x \<in> set Xc'. Q x)"
proof (cases "chk a b")
  case False
  with assms(5) show ?thesis by (simp add: emit_tuple_def)
next
  case True
  with assms obtain c where "xr a b = Inr c" "Q (TrimHash l c)"
    unfolding merge_step_def by blast
  with True assms(5) show ?thesis by (simp add: emit_tuple_def)
qed

lemma calc_tuples_keeps:
  assumes ms: "merge_step chk xr l P Q"
    and P: "\<forall>m < j. P (X ! (i + m))"
    and col: "\<forall>m. 1 \<le> m \<and> m < j \<longrightarrow> HasCollision (X ! i) (X ! (i + m)) l"
    and Q: "\<forall>x \<in> set Xc. Q x"
  shows "\<exists>Xc'. calc_tuples chk xr l X i j Xc = Inr Xc' \<and> (\<forall>x \<in> set Xc'. Q x)"
  unfolding calc_tuples_def
proof (rule for_each_invariant [where Inv = "\<lambda>Xc. \<forall>x \<in> set Xc. Q x", OF Q])
  fix l' Xc1
  assume l': "l' \<in> set [0 ..< j - 1]" and Q1: "\<forall>x \<in> set Xc1. Q x"
  show "\<exists>s'. for_each [l' + 1 ..< j] (\<lambda>m. emit_tuple chk xr l (X ! (i + l')) (X ! (i + m))) Xc1 = Inr s'
         \<and> (\<forall>x \<in> set s'. Q x)"
  proof (rule for_each_invariant [where Inv = "\<lambda>Xc. \<forall>x \<in> set Xc. Q x", OF Q1])
    fix m Xc2
    assume m: "m \<in> set [l' + 1 ..< j]" and Q2: "\<forall>x \<in> set Xc2. Q x"
    from l' m have lt: "l' < j" "m < j" "l' < m" by auto
    have c1: "HasCollision (X ! i) (X ! (i + m)) l" using col lt by simp
    have c2: "HasCollision (X ! (i + l')) (X ! i) l"
    proof (cases "l' = 0")
      case True
      then show ?thesis by (simp add: HasCollision_iff)
    next
      case False
      with col lt have "HasCollision (X ! i) (X ! (i + l')) l" by simp
      then show ?thesis by (rule HasCollision_sym)
    qed
    from c2 c1 have "HasCollision (X ! (i + l')) (X ! (i + m)) l" by (rule HasCollision_trans)
    moreover from P lt have "P (X ! (i + l'))" "P (X ! (i + m))" by simp_all
    ultimately show "\<exists>s'. emit_tuple chk xr l (X ! (i + l')) (X ! (i + m)) Xc2 = Inr s'
        \<and> (\<forall>x \<in> set s'. Q x)"
      using ms Q2 by (intro emit_tuple_keeps [where P = P])
  qed
qed

lemma store_tuples_keeps:
  "store_tuples X posFree Xc bound = (X', posFree', Xc') \<Longrightarrow> bound \<le> length X \<Longrightarrow>
   \<forall>x \<in> set (take posFree X). Q x \<Longrightarrow> \<forall>x \<in> set Xc. Q x \<Longrightarrow>
   (\<forall>x \<in> set (take posFree' X'). Q x) \<and> (\<forall>x \<in> set Xc'. Q x) \<and>
   (Xc' \<noteq> [] \<longrightarrow> bound \<le> posFree')"
proof (induction X posFree Xc bound rule: store_tuples.induct)
  case (1 X posFree Xc bound)
  show ?case
  proof (cases "posFree < bound \<and> Xc \<noteq> []")
    case False
    with "1.prems" show ?thesis by (auto simp: store_tuples_stop)
  next
    case True
    with "1.prems"(1) have r:
      "store_tuples (X[posFree := last Xc]) (posFree + 1) (butlast Xc) bound = (X', posFree', Xc')"
      by (simp add: store_tuples_step)
    from True "1.prems"(2) have lt: "posFree < length X" by simp
    then have "take (posFree + 1) (X[posFree := last Xc]) = take posFree X @ [last Xc]"
      by (simp add: take_Suc_conv_app_nth)
    moreover from True "1.prems"(4) have "Q (last Xc)" by simp
    ultimately have a: "\<forall>x \<in> set (take (posFree + 1) (X[posFree := last Xc])). Q x"
      using "1.prems"(3) by auto
    have b: "\<forall>x \<in> set (butlast Xc). Q x" using "1.prems"(4) by (meson in_set_butlastD)
    from "1.prems"(2) have c: "bound \<le> length (X[posFree := last Xc])" by simp
    from "1.IH" [OF True r c a b] show ?thesis .
  qed
qed

lemma scan_loop_keeps:
  assumes ms: "merge_step chk xr l P Q"
  shows "posFree \<le> i \<Longrightarrow> i \<le> length X \<Longrightarrow> \<forall>x \<in> set (take posFree X). Q x \<Longrightarrow>
     \<forall>x \<in> set Xc. Q x \<Longrightarrow> \<forall>q. i \<le> q \<and> q < length X \<longrightarrow> P (X ! q) \<Longrightarrow>
     \<exists>X' i' posFree' Xc'. scan_loop chk xr l (X, i, posFree, Xc) = Inr (X', i', posFree', Xc')
       \<and> length X' = length X \<and> posFree' \<le> length X'
       \<and> (\<forall>x \<in> set (take posFree' X'). Q x) \<and> (\<forall>x \<in> set Xc'. Q x)"
proof (induction "length X - i" arbitrary: X i posFree Xc rule: less_induct)
  case less
  show ?case
  proof (cases "i < length X - 1")
    case False
    then have "scan_loop chk xr l (X, i, posFree, Xc) = Inr (X, i, posFree, Xc)"
      by (subst scan_loop.simps) simp
    with less.prems show ?thesis by simp
  next
    case True
    let ?j = "find_run X l i 1"
    from True have "i + 1 \<le> length X" by simp
    then have le: "i + ?j \<le> length X" by (rule find_run_le)
    have ge: "1 \<le> ?j" by (rule find_run_ge)
    have Pm: "\<forall>m < ?j. P (X ! (i + m))" using less.prems(5) le by auto
    have col: "\<forall>m. 1 \<le> m \<and> m < ?j \<longrightarrow> HasCollision (X ! i) (X ! (i + m)) l"
      using find_run_collides [of X l i 1 ?j] by blast
    from calc_tuples_keeps [OF ms Pm col less.prems(4)] obtain Xc1 where
      ct: "calc_tuples chk xr l X i ?j Xc = Inr Xc1" and Q1: "\<forall>x \<in> set Xc1. Q x" by blast
    obtain X2 p2 Xc2 where st: "store_tuples X posFree Xc1 (i + ?j) = (X2, p2, Xc2)"
      by (cases "store_tuples X posFree Xc1 (i + ?j)") auto
    from ct st have body: "scan_body chk xr l (X, i, posFree, Xc) = Inr (X2, i + ?j, p2, Xc2)"
      by (simp add: scan_body_def)
    from store_tuples_keeps [OF st le less.prems(3) Q1] have
      k2: "\<forall>x \<in> set (take p2 X2). Q x" "\<forall>x \<in> set Xc2. Q x" by simp_all
    from store_tuples_frame [OF st] less.prems(1) have
      fr: "p2 \<le> i + ?j" "\<forall>q. p2 \<le> q \<longrightarrow> X2 ! q = X ! q" by auto
    from st have len: "length X2 = length X" by (rule store_tuples_length)
    have P2: "\<forall>q. i + ?j \<le> q \<and> q < length X2 \<longrightarrow> P (X2 ! q)"
      using fr less.prems(5) len by auto
    have "length X2 - (i + ?j) < length X - i" using len ge True by simp
    from less.hyps [OF this fr(1) _ k2(1) k2(2) P2] le len obtain X' i' posFree' Xc' where
      r: "scan_loop chk xr l (X2, i + ?j, p2, Xc2) = Inr (X', i', posFree', Xc')"
         "length X' = length X2" "posFree' \<le> length X'"
         "\<forall>x \<in> set (take posFree' X'). Q x" "\<forall>x \<in> set Xc'. Q x"
      by auto
    from True body have "scan_loop chk xr l (X, i, posFree, Xc) = scan_loop chk xr l (X2, i + ?j, p2, Xc2)"
      by (subst scan_loop.simps) simp
    with r len show ?thesis by simp
  qed
qed

lemma collision_round_keeps:
  assumes ms: "merge_step chk xr l P Q"
    and srt: "set (srt X) \<subseteq> set X"
    and P: "\<forall>x \<in> set X. P x"
  shows "\<exists>X'. collision_round srt chk xr l X = Inr X' \<and> (\<forall>x \<in> set X'. Q x)"
proof -
  have P': "\<forall>q. 0 \<le> q \<and> q < length (srt X) \<longrightarrow> P (srt X ! q)"
    using srt P by (meson nth_mem subsetD)
  from scan_loop_keeps [OF ms, of 0 0 "srt X" "[]", OF _ _ _ _ P'] obtain X1 i posFree1 Xc1 where
    sl: "scan_loop chk xr l (srt X, 0, 0, []) = Inr (X1, i, posFree1, Xc1)"
    and k1: "posFree1 \<le> length X1" "\<forall>x \<in> set (take posFree1 X1). Q x" "\<forall>x \<in> set Xc1. Q x"
    by auto
  obtain X2 posFree Xc where st: "store_tuples X1 posFree1 Xc1 (length X1) = (X2, posFree, Xc)"
    by (cases "store_tuples X1 posFree1 Xc1 (length X1)") auto
  from store_tuples_keeps [OF st _ k1(2) k1(3)] have
    k2: "\<forall>x \<in> set (take posFree X2). Q x" "\<forall>x \<in> set Xc. Q x" "Xc \<noteq> [] \<longrightarrow> length X1 \<le> posFree"
    by simp_all
  from st have len: "length X2 = length X1" by (rule store_tuples_length)
  show ?thesis
  proof (cases "Xc \<noteq> []")
    case True
    with k2(3) len have "take posFree X2 = X2" by simp
    with k2 have "\<forall>x \<in> set (X2 @ Xc). Q x" by auto
    with sl st True show ?thesis by (simp add: collision_round_def)
  next
    case False
    show ?thesis
    proof (cases "posFree < length X2")
      case True
      with sl st False k2(1) show ?thesis by (simp add: collision_round_def)
    next
      case False
      then have "take posFree X2 = X2" by simp
      with k2(1) have "\<forall>x \<in> set X2. Q x" by simp
      with sl st False \<open>\<not> Xc \<noteq> []\<close> show ?thesis by (simp add: collision_round_def)
    qed
  qed
qed

subsection \<open>The rows of the basic solver are the rows of the verifier\<close>

lemma verify_level_append:
  "verify_level l X = Inr (Some Xc) \<Longrightarrow> verify_level l Y = Inr (Some Yc) \<Longrightarrow>
   verify_level l (X @ Y) = Inr (Some (Xc @ Yc))"
proof (induction l X arbitrary: Xc rule: verify_level.induct)
  case (3 l a b X)
  from "3.prems"(1) obtain r Xc' where
    c: "HasCollision a b l" "\<not> IndicesBefore b a" "DistinctIndices_rows a b" and
    x: "BasicStepRow_xor a b = Inr r" and
    rest: "verify_level l X = Inr (Some Xc')" and Xc: "Xc = TrimHash l r # Xc'"
    by (auto split: if_splits sum.splits option.splits)
  from "3.IH" c x rest "3.prems"(2) have "verify_level l (X @ Y) = Inr (Some (Xc' @ Yc))"
    by simp
  with c x Xc show ?case by simp
qed simp_all

lemma verify_levels_append:
  "verify_levels l t X = Inr (Some Xc) \<Longrightarrow> verify_levels l t Y = Inr (Some Yc) \<Longrightarrow>
   verify_levels l t (X @ Y) = Inr (Some (Xc @ Yc))"
proof (induction t arbitrary: X Y)
  case 0
  then show ?case by simp
next
  case (Suc t)
  from Suc.prems(1) obtain X1 where
    X1: "verify_level l X = Inr (Some X1)" "verify_levels l t X1 = Inr (Some Xc)"
    by (auto split: sum.splits option.splits)
  from Suc.prems(2) obtain Y1 where
    Y1: "verify_level l Y = Inr (Some Y1)" "verify_levels l t Y1 = Inr (Some Yc)"
    by (auto split: sum.splits option.splits)
  from verify_level_append [OF X1(1) Y1(1)] Suc.IH [OF X1(2) Y1(2)] show ?case by simp
qed

lemma verify_levels_last:
  "verify_levels l t X = Inr (Some Y) \<Longrightarrow> verify_levels l (Suc t) X = verify_level l Y"
proof (induction t arbitrary: X)
  case 0
  then show ?case by (auto split: sum.splits option.splits)
next
  case (Suc t)
  from Suc.prems obtain X1 where
    X1: "verify_level l X = Inr (Some X1)" "verify_levels l t X1 = Inr (Some Y)"
    by (auto split: sum.splits option.splits)
  from Suc.IH [OF X1(2)] have "verify_levels l (Suc t) X1 = verify_level l Y" .
  with X1(1) show ?case by (simp del: verify_levels.simps add: verify_levels.simps(2) [of l "Suc t" X])
qed

lemma tree_row_shape:
  assumes "tree_row eh base_state r row"
  shows "length (hash row) = unat (param_n eh div 8) - r * CollisionByteLength eh"
    and "length (indices row) = 2 ^ r" and "indices row \<noteq> []"
proof -
  let ?X0 = "map (BasicStepRow_ctor (param_n eh) base_state) (indices row)"
  have sh0: "rows_shape (unat (param_n eh div 8)) 1 ?X0"
    by (auto simp: rows_shape_def BasicStepRow_ctor_def leaf_hash_def)
  from assms have lv: "verify_levels (CollisionByteLength eh) r ?X0 = Inr (Some [row])"
    by (simp add: tree_row_def)
  from verify_levels_shape [OF lv sh0]
  show "length (hash row) = unat (param_n eh div 8) - r * CollisionByteLength eh" by simp
  from assms show len: "length (indices row) = 2 ^ r" by (simp add: tree_row_def)
  then show "indices row \<noteq> []" by auto
qed

text \<open>The pair \<open>a\<close>, \<open>b\<close> in the order \<^verbatim>\<open>operator^\<close> puts it.\<close>

lemma ordered_pair:
  assumes a: "tree_row eh base_state r a" and b: "tree_row eh base_state r b"
    and d: "DistinctIndices_rows a b"
  obtains a' b' where "{a', b'} = {a, b}" "indices a' ! 0 < indices b' ! 0"
    "BasicStepRow_xor a b = Inr \<lparr>hash = map2 (XOR) (hash a') (hash b'),
                                  indices = indices a' @ indices b'\<rparr>"
    "BasicStepRow_xor a' b' = BasicStepRow_xor a b"
proof -
  from tree_row_shape [OF a] tree_row_shape [OF b] have
    sh: "length (hash a) = length (hash b)" "length (indices a) = length (indices b)"
    and ne: "indices a \<noteq> []" "indices b \<noteq> []" by simp_all
  from ne d have dj: "set (indices a) \<inter> set (indices b) = {}"
    by (simp add: DistinctIndices_rows_iff)
  from ne have "indices a ! 0 \<in> set (indices a)" "indices b ! 0 \<in> set (indices b)" by simp_all
  with dj have neq: "indices a ! 0 \<noteq> indices b ! 0" by auto
  note x = BasicStepRow_xor_eq [OF sh]
  show ?thesis
  proof (cases "indices a ! 0 < indices b ! 0")
    case True
    with x show ?thesis by (intro that [of a b]) simp_all
  next
    case False
    with neq have lt: "indices b ! 0 < indices a ! 0" by simp
    have "map2 (XOR) (hash a) (hash b) = map2 (XOR) (hash b) (hash a)"
      using sh(1) by (intro nth_equalityI) (simp_all add: xor.commute)
    with x False have x': "BasicStepRow_xor a b =
        Inr \<lparr>hash = map2 (XOR) (hash b) (hash a), indices = indices b @ indices a\<rparr>" by simp
    from BasicStepRow_xor_eq [of b a] sh lt have "BasicStepRow_xor b a =
        Inr \<lparr>hash = map2 (XOR) (hash b) (hash a), indices = indices b @ indices a\<rparr>" by simp
    with x' lt show ?thesis by (intro that [of b a]) auto
  qed
qed

lemma merged_pair_level:
  assumes a: "tree_row eh base_state r a" and b: "tree_row eh base_state r b"
    and lt: "indices a ! 0 < indices b ! 0"
    and x: "BasicStepRow_xor a b = Inr c"
    and ix: "indices c = indices a @ indices b"
    and col: "HasCollision a b (CollisionByteLength eh)" and d: "DistinctIndices_rows a b"
  shows "verify_levels (CollisionByteLength eh) r
           (map (BasicStepRow_ctor (param_n eh) base_state) (indices c)) = Inr (Some [a, b])"
    and "verify_level (CollisionByteLength eh) [a, b]
           = Inr (Some [TrimHash (CollisionByteLength eh) c])"
    and "distinct (indices c)" and "length (indices c) = 2 ^ Suc r"
    and "\<forall>i \<in> set (indices c). unat i < 2 ^ (CollisionBitLength eh + 1)"
proof -
  let ?l = "CollisionByteLength eh"
  let ?f = "BasicStepRow_ctor (param_n eh) base_state"
  from a b have la: "verify_levels ?l r (map ?f (indices a)) = Inr (Some [a])"
    and lb: "verify_levels ?l r (map ?f (indices b)) = Inr (Some [b])"
    by (simp_all add: tree_row_def)
  from verify_levels_append [OF la lb] ix
  show "verify_levels ?l r (map ?f (indices c)) = Inr (Some [a, b])" by simp
  from lt have "\<not> IndicesBefore b a" by (simp add: IndicesBefore_def)
  with col d x show "verify_level ?l [a, b] = Inr (Some [TrimHash ?l c])" by simp
  from tree_row_shape(3) [OF a] d have "set (indices a) \<inter> set (indices b) = {}"
    by (simp add: DistinctIndices_rows_iff)
  with a b ix show "distinct (indices c)" by (simp add: tree_row_def)
  from a b ix show "length (indices c) = 2 ^ Suc r" by (simp add: tree_row_def)
  from a b ix show "\<forall>i \<in> set (indices c). unat i < 2 ^ (CollisionBitLength eh + 1)"
    by (auto simp: tree_row_def)
qed

lemma tree_row_merge:
  "merge_step DistinctIndices_rows BasicStepRow_xor (CollisionByteLength eh)
     (tree_row eh base_state r) (tree_row eh base_state (Suc r))"
  unfolding merge_step_def
proof (intro allI impI, elim conjE)
  fix a b :: BasicStepRow
  let ?l = "CollisionByteLength eh"
  assume a: "tree_row eh base_state r a" and b: "tree_row eh base_state r b"
    and col: "HasCollision a b ?l" and d: "DistinctIndices_rows a b"
  from ordered_pair [OF a b d] obtain a' b' where
    ab: "{a', b'} = {a, b}" and lt: "indices a' ! 0 < indices b' ! 0" and
    x: "BasicStepRow_xor a b = Inr \<lparr>hash = map2 (XOR) (hash a') (hash b'),
                                  indices = indices a' @ indices b'\<rparr>" and
    x': "BasicStepRow_xor a' b' = BasicStepRow_xor a b" by blast
  let ?c = "\<lparr>hash = map2 (XOR) (hash a') (hash b'), indices = indices a' @ indices b'\<rparr>"
  from ab a b have a': "tree_row eh base_state r a'" and b': "tree_row eh base_state r b'"
    by (auto simp: doubleton_eq_iff)
  from ab col have col': "HasCollision a' b' ?l"
    by (auto simp: doubleton_eq_iff HasCollision_sym)
  from ab d tree_row_shape(3) [OF a] tree_row_shape(3) [OF b] have d': "DistinctIndices_rows a' b'"
    by (auto simp: doubleton_eq_iff DistinctIndices_rows_iff)
  have xc: "BasicStepRow_xor a' b' = Inr ?c" using x x' by simp
  note m = merged_pair_level [OF a' b' lt xc _ col' d']
  have "verify_levels ?l (Suc r) (map (BasicStepRow_ctor (param_n eh) base_state) (indices ?c))
      = Inr (Some [TrimHash ?l ?c])"
    using verify_levels_last [OF m(1)] m(2) by simp
  with m(3,4,5) have "tree_row eh base_state (Suc r) (TrimHash ?l ?c)"
    by (simp add: tree_row_def)
  with x show "\<exists>c. BasicStepRow_xor a b = Inr c \<and> tree_row eh base_state (Suc r) (TrimHash ?l c)"
    by blast
qed

lemma collision_rounds_keeps:
  assumes ms: "\<And>r. merge_step chk xr l (Pf r) (Pf (Suc r))"
    and srt: "\<And>X. set (srt X) \<subseteq> set X"
  shows "\<forall>x \<in> set X. Pf d x \<Longrightarrow>
     \<exists>X'. collision_rounds srt chk xr l k r X = Inr X' \<and> (\<forall>x \<in> set X'. Pf (d + (k - r)) x)"
proof (induction "k - r" arbitrary: r d X)
  case 0
  then have "collision_rounds srt chk xr l k r X = Inr X"
    by (subst collision_rounds.simps) simp
  with 0 show ?case by simp
next
  case (Suc n)
  show ?case
  proof (cases "length X > 0")
    case False
    then have "collision_rounds srt chk xr l k r X = Inr X"
      by (subst collision_rounds.simps) simp
    with False show ?thesis by simp
  next
    case True
    have "merge_step chk xr l (Pf d) (Pf (Suc d))" by (rule ms)
    moreover have "set (srt X) \<subseteq> set X" by (rule srt)
    ultimately have "\<exists>X'. collision_round srt chk xr l X = Inr X' \<and> (\<forall>x \<in> set X'. Pf (Suc d) x)"
      using Suc.prems by (rule collision_round_keeps)
    then obtain X1 where
      X1: "collision_round srt chk xr l X = Inr X1" "\<forall>x \<in> set X1. Pf (Suc d) x" by blast
    from Suc.hyps(2) have n: "n = k - (r + 1)" and lt: "r < k" by simp_all
    from Suc.hyps(1) [OF n X1(2)] obtain X' where
      X': "collision_rounds srt chk xr l k (r + 1) X1 = Inr X'"
          "\<forall>x \<in> set X'. Pf (Suc d + (k - (r + 1))) x" by blast
    from lt have e: "Suc d + (k - (r + 1)) = d + (k - r)" by arith
    from X'(2) have "\<forall>x \<in> set X'. Pf (d + (k - r)) x" unfolding e .
    moreover from True lt X1(1) X'(1) have "collision_rounds srt chk xr l k r X = Inr X'"
      by (subst collision_rounds.simps) simp
    ultimately show ?thesis by simp
  qed
qed

lemma first_list_tree_row:
  assumes "CollisionBitLength eh + 1 < 32"
  shows "\<forall>x \<in> set (first_list eh base_state). tree_row eh base_state 0 x"
proof
  fix x assume "x \<in> set (first_list eh base_state)"
  then obtain j where j: "j < 2 ^ (CollisionBitLength eh + 1)"
    and x: "x = BasicStepRow_ctor (param_n eh) base_state (word_of_nat j)"
    by (auto simp: first_list_def)
  from assms have "(2::nat) ^ (CollisionBitLength eh + 1) < 2 ^ 32"
    by (intro power_strict_increasing) simp_all
  with j have "j < 2 ^ 32" by simp
  then have "unat (word_of_nat j :: 32 word) = j"
    by (simp add: unat_of_nat)
  with j x show "tree_row eh base_state 0 x"
    by (simp add: tree_row_def BasicStepRow_ctor_def)
qed

lemma length_distinct_words:
  fixes xs :: "'a::len word list"
  assumes "distinct xs" and "\<forall>i \<in> set xs. unat i < M"
  shows "length xs \<le> M"
proof -
  have "length xs = card (set xs)" using assms(1) by (simp add: distinct_card)
  also have "\<dots> = card (unat ` set xs)"
    by (rule card_image [symmetric]) (simp add: inj_on_def word_unat_eq_iff)
  also have "\<dots> \<le> card {..<M}"
    using assms(2) by (intro card_mono) auto
  finally show ?thesis by simp
qed

lemma zero_xor_equal:
  fixes xs ys :: "byte list"
  shows "length xs = length ys \<Longrightarrow> \<forall>b \<in> set (map2 (XOR) xs ys). b = 0 \<Longrightarrow> xs = ys"
proof (induction xs ys rule: list_induct2)
  case Nil
  show ?case by simp
next
  case (Cons x xs y ys)
  from Cons.prems have "x XOR y = 0" by simp
  then have "x = y" by (metis xor.right_neutral xor.left_commute xor_self_eq)
  with Cons show ?case by simp
qed

lemma final_pair_valid:
  assumes k: "unat (param_k eh) = Suc r" and N: "CollisionBitLength eh + 1 < 32"
    and a: "tree_row eh base_state r a" and b: "tree_row eh base_state r b"
    and x: "BasicStepRow_xor a b = Inr res" and z: "IsZero res"
    and d: "DistinctIndices_rows a b"
  shows "IsValidSolution eh base_state (indices res) = Inr True
     \<and> length (indices res) = 2 ^ unat (param_k eh) \<and> distinct (indices res)
     \<and> (\<forall>i \<in> set (indices res). unat i < 2 ^ (CollisionBitLength eh + 1))"
proof -
  let ?l = "CollisionByteLength eh"
  let ?f = "BasicStepRow_ctor (param_n eh) base_state"
  from ordered_pair [OF a b d] obtain a' b' where
    ab: "{a', b'} = {a, b}" and lt: "indices a' ! 0 < indices b' ! 0" and
    x1: "BasicStepRow_xor a b = Inr \<lparr>hash = map2 (XOR) (hash a') (hash b'),
                                  indices = indices a' @ indices b'\<rparr>" and
    x': "BasicStepRow_xor a' b' = BasicStepRow_xor a b" by blast
  from x x1 have res: "res = \<lparr>hash = map2 (XOR) (hash a') (hash b'),
                                  indices = indices a' @ indices b'\<rparr>" by simp
  from ab a b have a': "tree_row eh base_state r a'" and b': "tree_row eh base_state r b'"
    by (auto simp: doubleton_eq_iff)
  from ab d tree_row_shape(3) [OF a] tree_row_shape(3) [OF b] have d': "DistinctIndices_rows a' b'"
    by (auto simp: doubleton_eq_iff DistinctIndices_rows_iff)
  from tree_row_shape(1) [OF a'] tree_row_shape(1) [OF b'] have
    hl: "length (hash a') = length (hash b')" by simp
  from z res have "\<forall>b \<in> set (map2 (XOR) (hash a') (hash b')). b = 0"
    by (simp add: IsZero_iff)
  with hl have heq: "hash a' = hash b'" by (rule zero_xor_equal)
  then have col': "HasCollision a' b' ?l" by (simp add: HasCollision_iff)
  have xc: "BasicStepRow_xor a' b' = Inr res" using x x' by simp
  have ix: "indices res = indices a' @ indices b'" using res by simp
  note m = merged_pair_level [OF a' b' lt xc ix col' d']
  from length_distinct_words [OF m(3) m(5)] m(4) k have
    "(2::nat) ^ unat (param_k eh) \<le> 2 ^ (CollisionBitLength eh + 1)" by simp
  then have "unat (param_k eh) \<le> CollisionBitLength eh + 1"
    by (rule power_le_imp_le_exp [rotated]) simp
  with N have k32: "unat (param_k eh) < 32" by simp
  have "verify_loop ?l (map ?f (indices res)) = verify_loop ?l [a', b']"
    using m(1) by (rule verify_loop_skip) simp
  also have "\<dots> = verify_loop ?l [TrimHash ?l res]"
    using m(2) by (subst verify_loop.simps) simp
  also have "\<dots> = Inr (IsZero (TrimHash ?l res))"
    by (subst verify_loop.simps) simp
  finally have "verify_loop ?l (map ?f (indices res)) = Inr (IsZero (TrimHash ?l res))" .
  moreover have "IsZero (TrimHash ?l res)"
    using z by (auto simp: IsZero_iff dest: in_set_dropD)
  ultimately have "verify_loop ?l (map ?f (indices res)) = Inr True" by simp
  with k32 m(4) k have "IsValidSolution eh base_state (indices res) = Inr True"
    by (simp add: IsValidSolution_def)
  with m(3,4,5) k show ?thesis by simp
qed

lemma final_round_keeps:
  assumes srt: "set (srt X) \<subseteq> set X"
    and ok: "\<And>a b. a \<in> set X \<Longrightarrow> b \<in> set X \<Longrightarrow>
       \<exists>res. BasicStepRow_xor a b = Inr res \<and>
         (IsZero res \<and> DistinctIndices_rows a b \<longrightarrow> R (indices res))"
  shows "\<exists>S. final_round srt BasicStepRow_xor insert {} X = Inr S \<and> (\<forall>sol \<in> S. R sol)"
proof (cases "length X > 1")
  case False
  then show ?thesis by (simp add: final_round_def)
next
  case True
  let ?X = "srt X"
  have "\<exists>S. for_each [0 ..< length ?X - 1] (\<lambda>i solns.
          case BasicStepRow_xor (?X ! i) (?X ! (i + 1)) of
            Inl e \<Rightarrow> Inl e
          | Inr res \<Rightarrow>
              Inr (if IsZero res \<and> DistinctIndices_rows (?X ! i) (?X ! (i + 1))
                   then insert (indices res) solns else solns)) {} = Inr S \<and> (\<forall>sol \<in> S. R sol)"
  proof (rule for_each_invariant [where Inv = "\<lambda>S. \<forall>sol \<in> S. R sol"])
    show "\<forall>sol \<in> {}. R sol" by simp
  next
    fix i S
    assume i: "i \<in> set [0 ..< length ?X - 1]" and S: "\<forall>sol \<in> S. R sol"
    then have "?X ! i \<in> set X" "?X ! (i + 1) \<in> set X"
      using srt by (auto intro!: subsetD [OF srt] nth_mem)
    from ok [OF this] obtain res where
      "BasicStepRow_xor (?X ! i) (?X ! (i + 1)) = Inr res"
      "IsZero res \<and> DistinctIndices_rows (?X ! i) (?X ! (i + 1)) \<longrightarrow> R (indices res)" by blast
    with S show "\<exists>s'. (case BasicStepRow_xor (?X ! i) (?X ! (i + 1)) of
            Inl e \<Rightarrow> Inl e
          | Inr res \<Rightarrow>
              Inr (if IsZero res \<and> DistinctIndices_rows (?X ! i) (?X ! (i + 1))
                   then insert (indices res) S else S)) = Inr s' \<and> (\<forall>sol \<in> s'. R sol)"
      by auto
  qed
  with True show ?thesis by (simp add: final_round_def Let_def)
qed

lemma BasicSolve_sound:
  assumes k: "1 \<le> unat (param_k eh)" and N: "CollisionBitLength eh + 1 < 32"
    and srt: "\<And>X. set (srt X) \<subseteq> set X"
  shows "\<exists>S. BasicSolve srt eh base_state = Inr S \<and>
     (\<forall>sol \<in> S. IsValidSolution eh base_state sol = Inr True
        \<and> length sol = 2 ^ unat (param_k eh) \<and> distinct sol
        \<and> (\<forall>i \<in> set sol. unat i < 2 ^ (CollisionBitLength eh + 1)))"
proof -
  let ?l = "CollisionByteLength eh"
  from k obtain r where r: "unat (param_k eh) = Suc r" by (cases "unat (param_k eh)") auto
  from collision_rounds_keeps [of DistinctIndices_rows BasicStepRow_xor ?l
      "tree_row eh base_state" srt "first_list eh base_state" 0 "unat (param_k eh)" 1,
      OF tree_row_merge srt first_list_tree_row [OF N]] r
  obtain X where X: "collision_rounds srt DistinctIndices_rows BasicStepRow_xor ?l
      (unat (param_k eh)) 1 (first_list eh base_state) = Inr X"
    and tr: "\<forall>x \<in> set X. tree_row eh base_state r x" by auto
  have "\<exists>S. final_round srt BasicStepRow_xor insert {} X = Inr S \<and>
     (\<forall>sol \<in> S. IsValidSolution eh base_state sol = Inr True
        \<and> length sol = 2 ^ unat (param_k eh) \<and> distinct sol
        \<and> (\<forall>i \<in> set sol. unat i < 2 ^ (CollisionBitLength eh + 1)))"
  proof (rule final_round_keeps [OF srt])
    fix a b assume "a \<in> set X" "b \<in> set X"
    with tr have a: "tree_row eh base_state r a" and b: "tree_row eh base_state r b" by simp_all
    from tree_row_shape [OF a] tree_row_shape [OF b] have
      "length (hash a) = length (hash b)" "length (indices a) = length (indices b)" by simp_all
    from BasicStepRow_xor_eq [OF this] obtain res where x: "BasicStepRow_xor a b = Inr res"
      by blast
    with final_pair_valid [OF r N a b x]
    show "\<exists>res. BasicStepRow_xor a b = Inr res \<and>
         (IsZero res \<and> DistinctIndices_rows a b \<longrightarrow>
          IsValidSolution eh base_state (indices res) = Inr True
          \<and> length (indices res) = 2 ^ unat (param_k eh) \<and> distinct (indices res)
          \<and> (\<forall>i \<in> set (indices res). unat i < 2 ^ (CollisionBitLength eh + 1)))"
      by blast
  qed
  with X N show ?thesis by (simp add: BasicSolve_def)
qed

subsection \<open>Running the final round on a table that is already sorted\<close>

lemma for_each_filter:
  assumes "\<And>x s. x \<in> set xs \<Longrightarrow> body x s = Inr (if P x then f x s else s)"
  shows "for_each xs body s = Inr (fold f (filter P xs) s)"
  using assms by (induction xs arbitrary: s) simp_all

lemma final_round_eval:
  assumes "1 < length X0"
    and "\<And>i. i < length (srt X0) - 1 \<Longrightarrow> xr (srt X0 ! i) (srt X0 ! (i + 1)) = Inr (res i)"
  shows "final_round srt xr ins none X0 =
     Inr (fold (\<lambda>i. ins (indices (res i)))
           (filter (\<lambda>i. IsZero (res i) \<and> DistinctIndices_rows (srt X0 ! i) (srt X0 ! (i + 1)))
              [0 ..< length (srt X0) - 1]) none)"
proof -
  let ?X = "srt X0"
  have "for_each [0 ..< length ?X - 1] (\<lambda>i solns.
          case xr (?X ! i) (?X ! (i + 1)) of
            Inl e \<Rightarrow> Inl e
          | Inr r \<Rightarrow>
              Inr (if IsZero r \<and> DistinctIndices_rows (?X ! i) (?X ! (i + 1))
                   then ins (indices r) solns else solns)) none =
     Inr (fold (\<lambda>i. ins (indices (res i)))
           (filter (\<lambda>i. IsZero (res i) \<and> DistinctIndices_rows (?X ! i) (?X ! (i + 1)))
              [0 ..< length ?X - 1]) none)"
  proof (rule for_each_filter)
    fix i s assume "i \<in> set [0 ..< length ?X - 1]"
    then have "i < length ?X - 1" by simp
    from assms(2) [OF this] show "(case xr (?X ! i) (?X ! (i + 1)) of
            Inl e \<Rightarrow> Inl e
          | Inr r \<Rightarrow>
              Inr (if IsZero r \<and> DistinctIndices_rows (?X ! i) (?X ! (i + 1))
                   then ins (indices r) s else s)) =
        Inr (if IsZero (res i) \<and> DistinctIndices_rows (?X ! i) (?X ! (i + 1))
             then ins (indices (res i)) s else s)"
      by simp
  qed
  with assms(1) show ?thesis by (simp add: final_round_def Let_def)
qed

lemma filter_eq_upt: "filter (\<lambda>i. i = a) [0 ..< n] = (if a < n then [a] else [])"
  by (induction n) auto

lemma filter_upt_single:
  assumes "a < n" and "\<And>i. i < n \<Longrightarrow> P i \<longleftrightarrow> i = a"
  shows "filter P [0 ..< n] = [a]"
proof -
  have "filter P [0 ..< n] = filter (\<lambda>i. i = a) [0 ..< n]"
    by (rule filter_cong) (simp_all add: assms(2))
  with assms(1) show ?thesis by (simp add: filter_eq_upt)
qed

lemma row_sort_sorted:
  "(\<And>i. i + 1 < length X \<Longrightarrow> \<not> row_less (X ! (i + 1)) (X ! i)) \<Longrightarrow> row_sort X = X"
proof (induction X)
  case Nil
  show ?case by (simp add: row_sort_def)
next
  case (Cons a X)
  have "row_sort X = X"
  proof (rule Cons.IH)
    fix i assume "i + 1 < length X"
    with Cons.prems [of "Suc i"] show "\<not> row_less (X ! (i + 1)) (X ! i)" by simp
  qed
  then have rs: "row_sort (a # X) = row_insert a X" by (simp add: row_sort_def)
  show ?case
  proof (cases X)
    case Nil
    with rs show ?thesis by simp
  next
    case (Cons b X')
    with Cons.prems [of 0] have "\<not> row_less b a" by simp
    with rs Cons show ?thesis by simp
  qed
qed

lemma xor_zero_iff_equal:
  fixes xs ys :: "byte list"
  assumes "length xs = length ys"
  shows "(\<forall>b \<in> set (map2 (XOR) xs ys). b = 0) \<longleftrightarrow> xs = ys"
proof
  assume "\<forall>b \<in> set (map2 (XOR) xs ys). b = 0"
  with assms show "xs = ys" by (rule zero_xor_equal)
next
  assume "xs = ys"
  then show "\<forall>b \<in> set (map2 (XOR) xs ys). b = 0"
    by (auto simp: in_set_zip)
qed

subsection \<open>Two bytes in big-endian order\<close>

lemma byte_of_nat_less:
  "a < 256 \<Longrightarrow> b < 256 \<Longrightarrow> (word_of_nat a :: byte) < word_of_nat b \<longleftrightarrow> a < b"
  by (simp add: word_of_nat_less_iff take_bit_nat_eq_self)

lemma byte_of_nat_eq:
  "a < 256 \<Longrightarrow> b < 256 \<Longrightarrow> (word_of_nat a :: byte) = word_of_nat b \<longleftrightarrow> a = b"
  by (simp add: word_of_nat_eq_iff take_bit_nat_eq_self)

lemma memcmp_less_two_bytes:
  assumes "a < 65536" "b < 65536"
  shows "memcmp_less [word_of_nat (a div 256), word_of_nat (a mod 256)]
           [word_of_nat (b div 256), word_of_nat (b mod 256)] \<longleftrightarrow> a < b"
proof -
  from assms have "a div 256 < 256" "b div 256 < 256" "a mod 256 < 256" "b mod 256 < 256"
    by simp_all
  then have "memcmp_less [word_of_nat (a div 256), word_of_nat (a mod 256)]
           [word_of_nat (b div 256), word_of_nat (b mod 256)] \<longleftrightarrow>
     a div 256 < b div 256 \<or> (a div 256 = b div 256 \<and> a mod 256 < b mod 256)"
    by (simp add: byte_of_nat_less byte_of_nat_eq)
  also have "\<dots> \<longleftrightarrow> a < b"
  proof -
    have "a = a div 256 * 256 + a mod 256" "b = b div 256 * 256 + b mod 256"
      "a mod 256 < 256" "b mod 256 < 256" by simp_all
    then show ?thesis by linarith
  qed
  finally show ?thesis .
qed

lemma two_bytes_eq:
  assumes "a < 65536" "b < 65536"
  shows "[word_of_nat (a div 256) :: byte, word_of_nat (a mod 256)]
           = [word_of_nat (b div 256), word_of_nat (b mod 256)] \<longleftrightarrow> a = b"
proof -
  from assms have "a div 256 < 256" "b div 256 < 256" "a mod 256 < 256" "b mod 256 < 256"
    by simp_all
  then have "[word_of_nat (a div 256) :: byte, word_of_nat (a mod 256)]
           = [word_of_nat (b div 256), word_of_nat (b mod 256)] \<longleftrightarrow>
     a div 256 = b div 256 \<and> a mod 256 = b mod 256"
    by (simp add: byte_of_nat_eq)
  also have "\<dots> \<longleftrightarrow> a = b"
    by (metis div_mult_mod_eq)
  finally show ?thesis .
qed

section \<open>Concrete runs\<close>

lemma eh_16_1_simps [simp]:
  "CollisionBitLength eh_16_1 = 8" "CollisionByteLength eh_16_1 = 1"
  "param_n eh_16_1 = 16" "param_k eh_16_1 = 1"
  by (simp_all add: eh_16_1_def CollisionByteLength_def CollisionBitLength_def)

lemma eh_8_0_simps [simp]:
  "CollisionBitLength eh_8_0 = 8" "CollisionByteLength eh_8_0 = 1"
  "param_n eh_8_0 = 8" "param_k eh_8_0 = 0"
  by (simp_all add: eh_8_0_def CollisionByteLength_def CollisionBitLength_def)

lemma unat_index [simp]: "j < 512 \<Longrightarrow> unat (word_of_nat j :: eh_index) = j"
  by (simp add: unat_of_nat)

lemma index_less [simp]:
  "i < 512 \<Longrightarrow> j < 512 \<Longrightarrow> (word_of_nat i :: eh_index) < word_of_nat j \<longleftrightarrow> i < j"
  by (simp add: word_less_nat_alt)

lemma index_eq [simp]:
  "i < 512 \<Longrightarrow> j < 512 \<Longrightarrow> (word_of_nat i :: eh_index) = word_of_nat j \<longleftrightarrow> i = j"
  by (simp add: word_unat_eq_iff)

lemma index_less_Suc [simp]: "i < 511 \<Longrightarrow> (word_of_nat i :: eh_index) < 1 + word_of_nat i"
proof -
  assume "i < 511"
  then have "(word_of_nat i :: eh_index) < word_of_nat (Suc i)"
    by (subst index_less) simp_all
  then show ?thesis by simp
qed

lemma index_neq_Suc [simp]: "i < 511 \<Longrightarrow> (word_of_nat i :: eh_index) \<noteq> 1 + word_of_nat i"
  using index_less_Suc [of i] by auto

lemma length_two_bytes [simp]: "length (two_bytes m) = 2"
  by (simp add: two_bytes_def)

lemma leaf_hash_shifted:
  "j < 512 \<Longrightarrow> leaf_hash 16 shifted_state (word_of_nat j) = two_bytes (shifted j)"
proof -
  assume j: "j < 512"
  have "[0 ..< 2] = [0, Suc 0]" by (simp add: upt_rec)
  moreover have "unat (16 div 8 :: 32 word) = 2" by simp
  ultimately show ?thesis using j
    by (simp add: leaf_hash_def shifted_state_def two_bytes_def shifted_def Let_def)
qed

lemma leaf_hash_zero: "leaf_hash 8 zero_state i = [0]"
proof -
  have "unat (8 div 8 :: 32 word) = 1" by simp
  then show ?thesis by (simp add: leaf_hash_def zero_state_def)
qed

lemma two_bytes_less:
  "a < 512 \<Longrightarrow> b < 512 \<Longrightarrow> memcmp_less (two_bytes a) (two_bytes b) \<longleftrightarrow> a < b"
  unfolding two_bytes_def by (rule memcmp_less_two_bytes) simp_all

lemma two_bytes_inj:
  "a < 512 \<Longrightarrow> b < 512 \<Longrightarrow> two_bytes a = two_bytes b \<longleftrightarrow> a = b"
  unfolding two_bytes_def by (rule two_bytes_eq) simp_all

lemma shifted_props:
  "j < 512 \<Longrightarrow> shifted j < 512" "shifted j \<le> shifted (j + 1)"
  "shifted j = shifted (j + 1) \<longleftrightarrow> j = 1"
  by (auto simp: shifted_def)

lemma collision_rounds_none: "\<not> r < k \<Longrightarrow> collision_rounds srt chk xr l k r X = Inr X"
  by (subst collision_rounds.simps) simp

text \<open>\<^verbatim>\<open>BasicSolve\<close> for \<open>n = 16\<close>, \<open>k = 1\<close> on the second state.\<close>

lemma first_list_shifted:
  "first_list eh_16_1 shifted_state =
     map (\<lambda>j. \<lparr>hash = two_bytes (shifted j), indices = [word_of_nat j]\<rparr>) [0 ..< 512]"
  by (simp add: first_list_def BasicStepRow_ctor_def leaf_hash_shifted)

lemma first_list_shifted_sorted:
  "row_sort (first_list eh_16_1 shifted_state) = first_list eh_16_1 shifted_state"
proof (rule row_sort_sorted)
  fix i assume "i + 1 < length (first_list eh_16_1 shifted_state)"
  then have i: "i + 1 < 512" by (simp add: first_list_shifted)
  with shifted_props [of i] shifted_props(1) [of "i + 1"]
  show "\<not> row_less (first_list eh_16_1 shifted_state ! (i + 1)) (first_list eh_16_1 shifted_state ! i)"
    by (simp add: first_list_shifted row_less_def two_bytes_less)
qed

lemma BasicSolve_shifted:
  "BasicSolve row_sort eh_16_1 shifted_state = Inr {[1, 2]}"
proof -
  let ?X = "first_list eh_16_1 shifted_state"
  let ?res = "\<lambda>i. \<lparr>hash = map2 (XOR) (two_bytes (shifted i)) (two_bytes (shifted (i + 1))),
                     indices = [word_of_nat i, word_of_nat (i + 1) :: eh_index]\<rparr>"
  have len: "length ?X = 512" by (simp add: first_list_shifted)
  have x: "BasicStepRow_xor (row_sort ?X ! i) (row_sort ?X ! (i + 1)) = Inr (?res i)"
    if "i < length (row_sort ?X) - 1" for i
  proof -
    from that have i: "i + 1 < 512" by (simp add: first_list_shifted_sorted len)
    then show ?thesis
      unfolding first_list_shifted_sorted
      by (subst BasicStepRow_xor_eq) (simp_all add: first_list_shifted)
  qed
  have P: "(IsZero (?res i) \<and> DistinctIndices_rows (row_sort ?X ! i) (row_sort ?X ! (i + 1)))
      \<longleftrightarrow> i = 1" if "i < 511" for i
  proof -
    have "IsZero (?res i) \<longleftrightarrow> two_bytes (shifted i) = two_bytes (shifted (i + 1))"
      using xor_zero_iff_equal [of "two_bytes (shifted i)" "two_bytes (shifted (i + 1))"]
      by (simp add: IsZero_iff)
    also have "\<dots> \<longleftrightarrow> i = 1"
      using that shifted_props(1) [of i] shifted_props(1) [of "i + 1"] shifted_props(3) [of i]
      by (simp add: two_bytes_inj)
    finally have z: "IsZero (?res i) \<longleftrightarrow> i = 1" .
    have "DistinctIndices_rows (row_sort ?X ! i) (row_sort ?X ! (i + 1))"
      using that unfolding first_list_shifted_sorted
      by (simp add: first_list_shifted DistinctIndices_rows_iff)
    with z show ?thesis by simp
  qed
  have f: "filter (\<lambda>i. IsZero (?res i) \<and>
        DistinctIndices_rows (row_sort ?X ! i) (row_sort ?X ! (i + 1)))
        [0 ..< length (row_sort ?X) - 1] = [1]"
    unfolding first_list_shifted_sorted len
    using P by (intro filter_upt_single) (simp_all add: first_list_shifted_sorted)
  have "final_round row_sort BasicStepRow_xor insert {} ?X =
      Inr (fold (\<lambda>i. insert (indices (?res i)))
        (filter (\<lambda>i. IsZero (?res i) \<and>
           DistinctIndices_rows (row_sort ?X ! i) (row_sort ?X ! (i + 1)))
           [0 ..< length (row_sort ?X) - 1]) {})"
  proof (rule final_round_eval)
    show "1 < length ?X" by (simp add: len)
  next
    fix i assume "i < length (row_sort ?X) - 1"
    then show "BasicStepRow_xor (row_sort ?X ! i) (row_sort ?X ! (i + 1)) = Inr (?res i)"
      by (rule x)
  qed
  then have "final_round row_sort BasicStepRow_xor insert {} ?X =
      Inr (fold (\<lambda>i. insert (indices (?res i))) [1] {})"
    unfolding f .
  then have "final_round row_sort BasicStepRow_xor insert {} ?X = Inr {[1, 2]}"
    by simp
  then show ?thesis
    by (simp add: BasicSolve_def collision_rounds_none)
qed

text \<open>\<^verbatim>\<open>OptimisedSolve\<close> for \<open>n = 16\<close>, \<open>k = 1\<close> on the second state.\<close>

lemma TruncatedStepRow_xor_eq:
  assumes "length (hash a) = length (hash b)"
    and "length (indices a) = length (indices b)"
  shows "TruncatedStepRow_xor a b =
     Inr (if indices a ! 0 < indices b ! 0
          then \<lparr>hash = map2 (XOR) (hash a) (hash b), indices = indices a @ indices b,
                full_indices = full_indices a @ full_indices b\<rparr>
          else \<lparr>hash = map2 (XOR) (hash a) (hash b), indices = indices b @ indices a,
                full_indices = full_indices b @ full_indices a\<rparr>)"
proof (cases "indices a ! 0 < indices b ! 0")
  case True
  with assms show ?thesis
    by (simp add: TruncatedStepRow_xor_def TruncatedStepRow_xor_assign_def raised_def
        xor_bytes_map2)
next
  case False
  have "xor_bytes (hash b) (hash a) = xor_bytes (hash a) (hash b)"
    using assms(1) by (intro xor_bytes_commute) simp
  also have "\<dots> = map2 (XOR) (hash a) (hash b)"
    using assms(1) by (rule xor_bytes_map2)
  finally have "xor_bytes (hash b) (hash a) = map2 (XOR) (hash a) (hash b)" .
  with False assms show ?thesis
    by (simp add: TruncatedStepRow_xor_def TruncatedStepRow_xor_assign_def raised_def)
qed

lemma trunc_index_simps [simp]:
  "trunc_index 1 = 0" "trunc_index (Suc 0) = 0" "trunc_index 2 = 1"
  by (simp_all add: trunc_index_def)

lemma trunc_index_Suc_Suc [simp]: "trunc_index (Suc (Suc 0)) = 1"
  using trunc_index_simps(3) by (simp only: numeral_2_eq_2)

lemma for_each_append:
  assumes "\<And>x s. x \<in> set xs \<Longrightarrow> body x s = Inr (s @ [f x])"
  shows "for_each xs body s = Inr (s @ map f xs)"
  using assms by (induction xs arbitrary: s) simp_all

lemma first_list_trunc_shifted:
  "first_list_trunc eh_16_1 shifted_state =
     Inr (map (\<lambda>j. \<lparr>hash = two_bytes (shifted j), indices = [trunc_index j],
                     full_indices = [word_of_nat j]\<rparr>) [0 ..< 512])"
proof -
  have "first_list_trunc eh_16_1 shifted_state =
     Inr ([] @ map (\<lambda>j. \<lparr>hash = two_bytes (shifted j), indices = [trunc_index j],
                     full_indices = [word_of_nat j]\<rparr>) [0 ..< 2 ^ (CollisionBitLength eh_16_1 + 1)])"
    unfolding first_list_trunc_def
  proof (rule for_each_append)
    fix x :: nat and s :: "TruncatedStepRow list"
    assume "x \<in> set [0 ..< 2 ^ (CollisionBitLength eh_16_1 + 1)]"
    then have "x < 512" by simp
    then show "(case TruncatedStepRow_ctor (param_n eh_16_1) shifted_state (word_of_nat x)
                 (word_of_nat (CollisionBitLength eh_16_1 + 1)) of
            Inl e \<Rightarrow> Inl e
          | Inr row \<Rightarrow> Inr (s @ [row])) =
        Inr (s @ [\<lparr>hash = two_bytes (shifted x), indices = [trunc_index x],
                     full_indices = [word_of_nat x]\<rparr>])"
      by (simp add: TruncatedStepRow_ctor_def leaf_hash_shifted trunc_index_def)
  qed
  then show ?thesis by simp
qed

lemma first_list_trunc_shifted_sorted:
  "row_sort (map (\<lambda>j. \<lparr>hash = two_bytes (shifted j), indices = [trunc_index j],
                     full_indices = [word_of_nat j :: eh_index]\<rparr>) [0 ..< 512]) =
   map (\<lambda>j. \<lparr>hash = two_bytes (shifted j), indices = [trunc_index j],
                     full_indices = [word_of_nat j]\<rparr>) [0 ..< 512]"
proof (rule row_sort_sorted)
  let ?X = "map (\<lambda>j. \<lparr>hash = two_bytes (shifted j), indices = [trunc_index j],
                     full_indices = [word_of_nat j :: eh_index]\<rparr>) [0 ..< 512]"
  fix i assume "i + 1 < length ?X"
  then have i: "i + 1 < 512" by simp
  with shifted_props [of i] shifted_props(1) [of "i + 1"]
  show "\<not> row_less (?X ! (i + 1)) (?X ! i)"
    by (simp add: row_less_def two_bytes_less)
qed

lemma partial_solutions_shifted:
  "partial_solutions row_sort eh_16_1 shifted_state = Inr [[0, 1]]"
proof -
  let ?row = "\<lambda>j. \<lparr>hash = two_bytes (shifted j), indices = [trunc_index j],
                full_indices = [word_of_nat j :: eh_index]\<rparr>"
  let ?X = "map ?row [0 ..< 512]"
  let ?h = "\<lambda>i. map2 (XOR) (two_bytes (shifted i)) (two_bytes (shifted (i + 1)))"
  let ?res = "\<lambda>i. if trunc_index i < trunc_index (i + 1)
          then \<lparr>hash = ?h i, indices = [trunc_index i, trunc_index (i + 1)],
                full_indices = [word_of_nat i, word_of_nat (i + 1) :: eh_index]\<rparr>
          else \<lparr>hash = ?h i, indices = [trunc_index (i + 1), trunc_index i],
                full_indices = [word_of_nat (i + 1), word_of_nat i]\<rparr>"
  have len: "length ?X = 512" by simp
  have nth: "row_sort ?X ! i = ?row i" if "i < 512" for i
    using that unfolding first_list_trunc_shifted_sorted by simp
  have x: "TruncatedStepRow_xor (row_sort ?X ! i) (row_sort ?X ! (i + 1)) = Inr (?res i)"
    if "i < length (row_sort ?X) - 1" for i
  proof -
    from that have i: "i < 512" "i + 1 < 512" by (simp_all add: first_list_trunc_shifted_sorted)
    show ?thesis
      unfolding nth [OF i(1)] nth [OF i(2)]
      by (subst TruncatedStepRow_xor_eq) simp_all
  qed
  have z: "IsZero (?res i) \<longleftrightarrow> i = 1" if "i < 511" for i
  proof -
    have "IsZero (?res i) \<longleftrightarrow> two_bytes (shifted i) = two_bytes (shifted (i + 1))"
      using xor_zero_iff_equal [of "two_bytes (shifted i)" "two_bytes (shifted (i + 1))"]
      by (simp add: IsZero_iff)
    also have "\<dots> \<longleftrightarrow> i = 1"
      using that shifted_props(1) [of i] shifted_props(1) [of "i + 1"] shifted_props(3) [of i]
      by (simp add: two_bytes_inj)
    finally show ?thesis .
  qed
  have d: "DistinctIndices_rows (row_sort ?X ! 1) (row_sort ?X ! (1 + 1))"
  proof -
    have e1: "row_sort ?X ! 1 = ?row 1" by (rule nth) simp
    have e2: "row_sort ?X ! (1 + 1) = ?row (1 + 1)" by (rule nth) simp
    show ?thesis unfolding e1 e2 by (simp add: DistinctIndices_rows_iff)
  qed
  have P: "(IsZero (?res i) \<and> DistinctIndices_rows (row_sort ?X ! i) (row_sort ?X ! (i + 1)))
      \<longleftrightarrow> i = 1" if "i < 511" for i
    using z [OF that] d by auto
  have f: "filter (\<lambda>i. IsZero (?res i) \<and>
        DistinctIndices_rows (row_sort ?X ! i) (row_sort ?X ! (i + 1)))
        [0 ..< length (row_sort ?X) - 1] = [1]"
    unfolding first_list_trunc_shifted_sorted len
    using P by (intro filter_upt_single) (simp_all add: first_list_trunc_shifted_sorted)
  have "final_round row_sort TruncatedStepRow_xor insort_insert [] ?X =
      Inr (fold (\<lambda>i. insort_insert (indices (?res i)))
        (filter (\<lambda>i. IsZero (?res i) \<and>
           DistinctIndices_rows (row_sort ?X ! i) (row_sort ?X ! (i + 1)))
           [0 ..< length (row_sort ?X) - 1]) [])"
  proof (rule final_round_eval)
    show "1 < length ?X" by (simp add: len)
  next
    fix i assume "i < length (row_sort ?X) - 1"
    then show "TruncatedStepRow_xor (row_sort ?X ! i) (row_sort ?X ! (i + 1)) = Inr (?res i)"
      by (rule x)
  qed
  then have "final_round row_sort TruncatedStepRow_xor insort_insert [] ?X =
      Inr (fold (\<lambda>i. insort_insert (indices (?res i))) [1] [])"
    unfolding f .
  then have "final_round row_sort TruncatedStepRow_xor insort_insert [] ?X = Inr [[0, 1]]"
    by (simp add: insort_insert_key_def)
  then show ?thesis
    by (simp add: partial_solutions_def first_list_trunc_shifted collision_rounds_none)
qed

lemma recreate_lists_16:
  "recreate_lists 16 base_state 2 [0, 1]
       = Inr [[BasicStepRow_ctor 16 base_state 0, BasicStepRow_ctor 16 base_state 1],
              [BasicStepRow_ctor 16 base_state 4, BasicStepRow_ctor 16 base_state 5]]"
proof -
  have two: "[0 ..< 2] = [0, Suc 0]" by (simp add: upt_rec)
  show ?thesis
    by (simp add: recreate_lists_def recreate_list_def untruncate_def two)
qed

lemma shifted_rows:
  "BasicStepRow_ctor 16 shifted_state 0 = \<lparr>hash = [0, 0], indices = [0]\<rparr>"
  "BasicStepRow_ctor 16 shifted_state 1 = \<lparr>hash = [0, 1], indices = [1]\<rparr>"
  "BasicStepRow_ctor 16 shifted_state 4 = \<lparr>hash = [0, 3], indices = [4]\<rparr>"
  "BasicStepRow_ctor 16 shifted_state 5 = \<lparr>hash = [0, 4], indices = [5]\<rparr>"
  using leaf_hash_shifted [of 0] leaf_hash_shifted [of 1] leaf_hash_shifted [of 4]
    leaf_hash_shifted [of 5]
  by (simp_all add: BasicStepRow_ctor_def two_bytes_def shifted_def)

lemma cross_loop_shifted:
  "cross_loop 1 [\<lparr>hash = [0, 0], indices = [0]\<rparr>, \<lparr>hash = [0, 1], indices = [1]\<rparr>]
     [\<lparr>hash = [0, 3], indices = [4]\<rparr>, \<lparr>hash = [0, 4], indices = [5]\<rparr>] (0, 0, [])
   = Some (Inr [\<lparr>hash = [0], indices = [0, 0]\<rparr>, \<lparr>hash = [1], indices = [0, 1]\<rparr>,
                \<lparr>hash = [1], indices = [0, 1]\<rparr>, \<lparr>hash = [0], indices = [1, 1]\<rparr>])"
proof -
  let ?A = "[\<lparr>hash = [0, 0], indices = [0::eh_index]\<rparr>, \<lparr>hash = [0, 1], indices = [1]\<rparr>]"
  let ?B = "[\<lparr>hash = [0, 3], indices = [4::eh_index]\<rparr>, \<lparr>hash = [0, 4], indices = [5]\<rparr>]"
  let ?ic = "[\<lparr>hash = [0], indices = [0, 0::eh_index]\<rparr>, \<lparr>hash = [1], indices = [0, 1]\<rparr>,
                \<lparr>hash = [1], indices = [0, 1]\<rparr>, \<lparr>hash = [0], indices = [1, 1]\<rparr>]"
  have two: "[0 ..< 2] = [0, Suc 0]" by (simp add: upt_rec)
  have ci: "count_i ?A (?B ! 0) 1 0 0 = 2"
    by (simp add: count_i.simps HasCollision_def)
  have cj: "count_j (?A ! 0) ?B 1 0 1 = 2"
    by (simp add: count_j.simps HasCollision_def)
  have body: "cross_body 1 ?A ?B (0, 0, []) = Inr (2, 2, ?ic)"
    unfolding cross_body_def prod.case ci cj Let_def two
    by (simp add: cross_emit_def DistinctIndices_rows_def DistinctIndices_def di_while.simps
        BasicStepRow_xor_def BasicStepRow_xor_assign_def raised_def xor_bytes_def TrimHash_def two)
  have "cross_loop 1 ?A ?B (0, 0, []) = cross_loop 1 ?A ?B (2, 2, ?ic)"
    using body by (subst cross_loop.simps) simp
  also have "\<dots> = Some (Inr ?ic)"
    by (rule cross_loop_stop) simp
  finally show ?thesis .
qed

lemma OptimisedSolve_shifted:
  "OptimisedSolve row_sort row_sort eh_16_1 shifted_state = Some (Inr {[0, 0], [0, 1], [1, 1]})"
proof -
  have lev: "recreate_levels row_sort 1
      [[\<lparr>hash = [0, 0], indices = [0]\<rparr>, \<lparr>hash = [0, 1], indices = [1]\<rparr>],
       [\<lparr>hash = [0, 3], indices = [4]\<rparr>, \<lparr>hash = [0, 4], indices = [5]\<rparr>]]
    = Some (Inr [\<lparr>hash = [0], indices = [0, 0]\<rparr>, \<lparr>hash = [1], indices = [0, 1]\<rparr>,
                \<lparr>hash = [1], indices = [0, 1]\<rparr>, \<lparr>hash = [0], indices = [1, 1]\<rparr>])"
    using cross_loop_shifted by (simp add: recreate_levels.simps row_sort_def row_less_def)
  have "recreate row_sort eh_16_1 shifted_state 2 [0, 1] {} = Some (Inr {[0, 0], [0, 1], [1, 1]})"
    using lev by (simp add: recreate_def recreate_lists_16 shifted_rows insert_commute)
  then show ?thesis
    by (simp add: OptimisedSolve_def partial_solutions_shifted)
qed

text \<open>\<^verbatim>\<open>BasicSolve\<close> for \<open>n = 8\<close>, \<open>k = 0\<close> on the all-zero state.\<close>

lemma fold_insert_image: "fold (\<lambda>i. insert (g i)) xs S = g ` set xs \<union> S"
  by (induction xs arbitrary: S) auto

lemma first_list_zero:
  "first_list eh_8_0 zero_state = map (\<lambda>j. \<lparr>hash = [0], indices = [word_of_nat j]\<rparr>) [0 ..< 512]"
  by (simp add: first_list_def BasicStepRow_ctor_def leaf_hash_zero)

lemma first_list_zero_sorted:
  "row_sort (first_list eh_8_0 zero_state) = first_list eh_8_0 zero_state"
proof (rule row_sort_sorted)
  fix i assume "i + 1 < length (first_list eh_8_0 zero_state)"
  then have i: "i + 1 < 512" by (simp add: first_list_zero)
  then show "\<not> row_less (first_list eh_8_0 zero_state ! (i + 1)) (first_list eh_8_0 zero_state ! i)"
    by (simp add: first_list_zero row_less_def)
qed

lemma BasicSolve_zero:
  "BasicSolve row_sort eh_8_0 zero_state =
     Inr ((\<lambda>i. [word_of_nat i, word_of_nat (i + 1)]) ` {0 ..< 511})"
proof -
  let ?X = "first_list eh_8_0 zero_state"
  let ?res = "\<lambda>i. \<lparr>hash = map2 (XOR) [0 :: byte] [0],
                     indices = [word_of_nat i, word_of_nat (i + 1) :: eh_index]\<rparr>"
  have len: "length ?X = 512" by (simp add: first_list_zero)
  have x: "BasicStepRow_xor (row_sort ?X ! i) (row_sort ?X ! (i + 1)) = Inr (?res i)"
    if "i < length (row_sort ?X) - 1" for i
  proof -
    from that have i: "i + 1 < 512" by (simp add: first_list_zero_sorted len)
    then show ?thesis
      unfolding first_list_zero_sorted
      by (subst BasicStepRow_xor_eq) (simp_all add: first_list_zero)
  qed
  have P: "IsZero (?res i) \<and> DistinctIndices_rows (row_sort ?X ! i) (row_sort ?X ! (i + 1))"
    if "i < 511" for i
    using that unfolding first_list_zero_sorted
    by (simp add: first_list_zero DistinctIndices_rows_iff IsZero_iff)
  have f: "filter (\<lambda>i. IsZero (?res i) \<and>
        DistinctIndices_rows (row_sort ?X ! i) (row_sort ?X ! (i + 1)))
        [0 ..< length (row_sort ?X) - 1] = [0 ..< 511]"
  proof -
    have l: "length (row_sort ?X) - 1 = 511" by (simp add: first_list_zero_sorted len)
    show ?thesis unfolding l
    proof (rule filter_True, rule ballI)
      fix i assume "i \<in> set [0 ..< 511]"
      then have "i < 511" by simp
      then show "IsZero (?res i) \<and>
          DistinctIndices_rows (row_sort ?X ! i) (row_sort ?X ! (i + 1))" by (rule P)
    qed
  qed
  have "final_round row_sort BasicStepRow_xor insert {} ?X =
      Inr (fold (\<lambda>i. insert (indices (?res i)))
        (filter (\<lambda>i. IsZero (?res i) \<and>
           DistinctIndices_rows (row_sort ?X ! i) (row_sort ?X ! (i + 1)))
           [0 ..< length (row_sort ?X) - 1]) {})"
  proof (rule final_round_eval)
    show "1 < length ?X" by (simp add: len)
  next
    fix i assume "i < length (row_sort ?X) - 1"
    then show "BasicStepRow_xor (row_sort ?X ! i) (row_sort ?X ! (i + 1)) = Inr (?res i)"
      by (rule x)
  qed
  then have "final_round row_sort BasicStepRow_xor insert {} ?X =
      Inr (fold (\<lambda>i. insert (indices (?res i))) [0 ..< 511] {})"
    unfolding f .
  then have "final_round row_sort BasicStepRow_xor insert {} ?X =
      Inr ((\<lambda>i. [word_of_nat i, word_of_nat (i + 1)]) ` {0 ..< 511})"
    by (simp add: fold_insert_image del: of_nat_add of_nat_Suc)
  then show ?thesis
    by (simp add: BasicSolve_def collision_rounds_none del: of_nat_add of_nat_Suc)
qed

lemma BasicSolve_zero_member:
  "\<not> isl (BasicSolve row_sort eh_8_0 zero_state)
   \<and> [0, 1] \<in> projr (BasicSolve row_sort eh_8_0 zero_state)"
proof -
  have "[0, 1 :: eh_index] = (\<lambda>i. [word_of_nat i, word_of_nat (i + 1)]) 0" by simp
  then have "[0, 1 :: eh_index] \<in> (\<lambda>i. [word_of_nat i, word_of_nat (i + 1)]) ` {0 ..< 511}"
    by (intro image_eqI [where x = 0]) simp_all
  then show ?thesis unfolding BasicSolve_zero by simp
qed

lemma set_row_insert: "set (row_insert a X) = insert a (set X)"
  by (induction X) auto

lemma set_row_sort: "set (row_sort X) = set X"
  by (induction X) (simp_all add: row_sort_def set_row_insert)

lemma params_invariant_examples:
  "params_invariant 16 1" "params_invariant 8 0"
  by (simp_all add: params_invariant_def numeral_2_eq_2 [symmetric])

text \<open>For \<open>k = 0\<close> the final round merges two rows of the first list.\<close>

lemma first_pair_shape:
  assumes N: "CollisionBitLength eh + 1 < 32"
    and a: "a \<in> set (first_list eh base_state)" and b: "b \<in> set (first_list eh base_state)"
  shows "\<exists>res. BasicStepRow_xor a b = Inr res \<and>
     (IsZero res \<and> DistinctIndices_rows a b \<longrightarrow>
        length (indices res) = 2 \<and> distinct (indices res)
        \<and> (\<forall>i \<in> set (indices res). unat i < 2 ^ (CollisionBitLength eh + 1)))"
proof -
  from first_list_tree_row [OF N, of base_state] a b have
    ta: "tree_row eh base_state 0 a" and tb: "tree_row eh base_state 0 b" by simp_all
  from tree_row_shape [OF ta] tree_row_shape [OF tb] have
    sh: "length (hash a) = length (hash b)" "length (indices a) = length (indices b)"
    and la: "length (indices a) = 1" and lb: "length (indices b) = 1"
    and ne: "indices a \<noteq> []" by simp_all
  from ta tb have da: "distinct (indices a)" and db: "distinct (indices b)"
    and ba: "\<forall>i \<in> set (indices a). unat i < 2 ^ (CollisionBitLength eh + 1)"
    and bb: "\<forall>i \<in> set (indices b). unat i < 2 ^ (CollisionBitLength eh + 1)"
    by (simp_all add: tree_row_def)
  let ?res = "\<lparr>hash = map2 (XOR) (hash a) (hash b),
          indices = (if indices a ! 0 < indices b ! 0 then indices a @ indices b
                     else indices b @ indices a)\<rparr>"
  have x: "BasicStepRow_xor a b = Inr ?res" using sh by (rule BasicStepRow_xor_eq)
  have "length (indices ?res) = 2 \<and> distinct (indices ?res)
        \<and> (\<forall>i \<in> set (indices ?res). unat i < 2 ^ (CollisionBitLength eh + 1))"
    if d: "DistinctIndices_rows a b"
  proof -
    from d ne have dj: "set (indices a) \<inter> set (indices b) = {}"
      by (simp add: DistinctIndices_rows_iff)
    with la lb da db ba bb show ?thesis by auto
  qed
  with x show ?thesis by blast
qed

lemma BasicSolve_sound_zero:
  assumes k: "unat (param_k eh) = 0" and N: "CollisionBitLength eh + 1 < 32"
    and srt: "\<And>X. set (srt X) \<subseteq> set X"
  shows "\<exists>S. BasicSolve srt eh base_state = Inr S \<and>
     (\<forall>sol \<in> S. length sol = 2 \<and> distinct sol
        \<and> (\<forall>i \<in> set sol. unat i < 2 ^ (CollisionBitLength eh + 1)))"
proof -
  let ?X = "first_list eh base_state"
  have X: "collision_rounds srt DistinctIndices_rows BasicStepRow_xor (CollisionByteLength eh)
      (unat (param_k eh)) 1 ?X = Inr ?X"
    using k by (intro collision_rounds_none) simp
  have "\<exists>S. final_round srt BasicStepRow_xor insert {} ?X = Inr S \<and>
     (\<forall>sol \<in> S. length sol = 2 \<and> distinct sol
        \<and> (\<forall>i \<in> set sol. unat i < 2 ^ (CollisionBitLength eh + 1)))"
  proof (rule final_round_keeps [OF srt])
    fix a b assume "a \<in> set ?X" "b \<in> set ?X"
    then show "\<exists>res. BasicStepRow_xor a b = Inr res \<and>
         (IsZero res \<and> DistinctIndices_rows a b \<longrightarrow>
          length (indices res) = 2 \<and> distinct (indices res)
          \<and> (\<forall>i \<in> set (indices res). unat i < 2 ^ (CollisionBitLength eh + 1)))"
      by (rule first_pair_shape [OF N])
  qed
  with X N show ?thesis by (simp add: BasicSolve_def)
qed

lemma mset_row_insert: "mset (row_insert a X) = add_mset a (mset X)"
  by (induction X) auto

lemma mset_row_sort: "mset (row_sort X) = mset X"
  by (induction X) (simp_all add: row_sort_def mset_row_insert)

text \<open>
  On the all-zero state with \<open>n = 8\<close>, \<open>k = 0\<close> all 512 leaves compare equal, and
  \<^verbatim>\<open>std::sort\<close> may leave them in any order. Whatever permutation it returns, the first
  two rows of the table are different leaves with equal digests, so the final round
  returns at least one solution, and every solution it returns is a pair.
\<close>

lemma BasicSolve_zero_any_sort:
  assumes perm: "\<And>X. mset (srt X) = mset X"
  shows "\<exists>S. BasicSolve srt eh_8_0 zero_state = Inr S \<and> length ` S = {2}"
proof -
  let ?X = "first_list eh_8_0 zero_state"
  let ?Y = "srt ?X"
  let ?res = "\<lambda>i. \<lparr>hash = map2 (XOR) (hash (?Y ! i)) (hash (?Y ! (i + 1))),
          indices = (if indices (?Y ! i) ! 0 < indices (?Y ! (i + 1)) ! 0
                     then indices (?Y ! i) @ indices (?Y ! (i + 1))
                     else indices (?Y ! (i + 1)) @ indices (?Y ! i))\<rparr>"
  let ?P = "\<lambda>i. IsZero (?res i) \<and> DistinctIndices_rows (?Y ! i) (?Y ! (i + 1))"
  have lenX: "length ?X = 512" by (simp add: first_list_zero)
  have dX: "distinct ?X"
    by (auto simp: first_list_zero distinct_map inj_on_def)
  from perm [of ?X] have setY: "set ?Y = set ?X" by (rule mset_eq_setD)
  from perm [of ?X] have lenY: "length ?Y = 512" using lenX by (metis mset_eq_length)
  from perm [of ?X] dX have dY: "distinct ?Y" by (metis mset_eq_imp_distinct_iff)
  have row: "\<exists>j < 512. ?Y ! i = \<lparr>hash = [0], indices = [word_of_nat j]\<rparr>" if "i < 512" for i
  proof -
    from that lenY have "?Y ! i \<in> set ?X" unfolding setY [symmetric] by simp
    then show ?thesis by (auto simp: first_list_zero)
  qed
  have x: "BasicStepRow_xor (?Y ! i) (?Y ! (i + 1)) = Inr (?res i)" if "i < length ?Y - 1" for i
  proof -
    from that lenY have i: "i < 512" "i + 1 < 512" by simp_all
    from row [OF i(1)] row [OF i(2)] show ?thesis
      by (intro BasicStepRow_xor_eq) auto
  qed
  have fr: "final_round srt BasicStepRow_xor insert {} ?X =
      Inr (fold (\<lambda>i. insert (indices (?res i))) (filter ?P [0 ..< length ?Y - 1]) {})"
    using lenX by (intro final_round_eval x) simp_all
  let ?S = "(\<lambda>i. indices (?res i)) ` set (filter ?P [0 ..< length ?Y - 1])"
  from fr have S: "BasicSolve srt eh_8_0 zero_state = Inr ?S"
    by (simp add: BasicSolve_def collision_rounds_none fold_insert_image)
  have two: "length (indices (?res i)) = 2" if "i < 511" for i
  proof -
    from that have i: "i < 512" "i + 1 < 512" by simp_all
    from row [OF i(1)] row [OF i(2)] show ?thesis by auto
  qed
  have P0: "?P 0"
  proof -
    from row [of 0] obtain j0 where j0: "j0 < 512"
      "?Y ! 0 = \<lparr>hash = [0], indices = [word_of_nat j0]\<rparr>" by auto
    from row [of 1] obtain j1 where j1: "j1 < 512"
      "?Y ! 1 = \<lparr>hash = [0], indices = [word_of_nat j1]\<rparr>" by auto
    from dY lenY have "?Y ! 0 \<noteq> ?Y ! 1" by (simp add: nth_eq_iff_index_eq)
    with j0 j1 have "j0 \<noteq> j1" by auto
    with j0 j1 show ?thesis by (simp add: IsZero_iff DistinctIndices_rows_iff)
  qed
  have "length ` ?S = {2}"
  proof
    show "length ` ?S \<subseteq> {2}"
    proof
      fix n assume "n \<in> length ` ?S"
      then obtain sol where sol: "sol \<in> ?S" and n: "n = length sol" by (rule imageE)
      from sol obtain i where i: "i \<in> set (filter ?P [0 ..< length ?Y - 1])"
        and e: "sol = indices (?res i)" by (rule imageE)
      from i lenY have "i < 511" by simp
      from two [OF this] n e show "n \<in> {2}" by simp
    qed
    from P0 lenY have "0 \<in> set (filter ?P [0 ..< length ?Y - 1])" by simp
    then have "indices (?res 0) \<in> ?S" by (rule imageI)
    then have "length (indices (?res 0)) \<in> length ` ?S" by (rule imageI)
    with two [of 0] show "{2} \<subseteq> length ` ?S" by simp
  qed
  with S show ?thesis by blast
qed

section \<open>The solvers against the verifier\<close>

text \<open>
  C1. Every solution returned by \<^verbatim>\<open>BasicSolve\<close> and by \<^verbatim>\<open>OptimisedSolve\<close> is accepted by
  the verifier. Two runs contradict it. For \<open>n = 8\<close>, \<open>k = 0\<close> and the all-zero state
  \<^verbatim>\<open>BasicSolve\<close> skips the rounds and its final round still merges two leaves: it
  returns \<open>[0, 1]\<close>, which the verifier rejects for its size. For \<open>n = 16\<close>, \<open>k = 1\<close> and
  the second state \<^verbatim>\<open>OptimisedSolve\<close> returns \<open>[0, 0]\<close>, \<open>[0, 1]\<close> and \<open>[1, 1]\<close>, and the
  verifier rejects \<open>[0, 0]\<close>.
\<close>

theorem solutions_valid_counterexample:
  "\<not> isl (BasicSolve row_sort eh_8_0 zero_state)
   \<and> [0, 1] \<in> projr (BasicSolve row_sort eh_8_0 zero_state)
   \<and> Equihash_ctor 8 0 = Inr eh_8_0
   \<and> IsValidSolution eh_8_0 zero_state [0, 1] = Inr False
   \<and> OptimisedSolve row_sort row_sort eh_16_1 shifted_state = Some (Inr {[0, 0], [0, 1], [1, 1]})
   \<and> Equihash_ctor 16 1 = Inr eh_16_1
   \<and> IsValidSolution eh_16_1 shifted_state [0, 0] = Inr False"
proof -
  have c8: "Equihash_ctor 8 0 = Inr eh_8_0"
    using Equihash_ctor_int_range [of 8 0] by (simp add: params_invariant_examples eh_8_0_def)
  have c16: "Equihash_ctor 16 1 = Inr eh_16_1"
    using Equihash_ctor_int_range [of 16 1] by (simp add: params_invariant_examples eh_16_1_def)
  have v8: "IsValidSolution eh_8_0 zero_state [0, 1] = Inr False"
    by (simp add: IsValidSolution_def)
  have "\<not> DistinctIndices_rows (BasicStepRow_ctor 16 shifted_state 0)
          (BasicStepRow_ctor 16 shifted_state 0)"
    by (simp add: DistinctIndices_rows_iff BasicStepRow_ctor_def)
  then have v16: "IsValidSolution eh_16_1 shifted_state [0, 0] = Inr False"
    by (simp add: IsValidSolution_def verify_loop.simps)
  from BasicSolve_zero_member c8 v8 OptimisedSolve_shifted c16 v16 show ?thesis by blast
qed

text \<open>
  C1, amended. For parameters that satisfy the invariants, with \<open>k \<ge> 1\<close>, and any
  \<^verbatim>\<open>std::sort\<close> that returns rows of its input, every solution in the set
  \<^verbatim>\<open>BasicSolve\<close> returns is accepted by the verifier.
\<close>

theorem BasicSolve_solutions_valid:
  assumes "params_invariant (param_n eh) (param_k eh)"
    and "1 \<le> unat (param_k eh)"
    and "\<forall>X. set (srt X) \<subseteq> set X"
    and "BasicSolve srt eh base_state = Inr S"
    and "sol \<in> S"
  shows "IsValidSolution eh base_state sol = Inr True"
proof -
  from assms(4) have N: "CollisionBitLength eh + 1 < 32"
    by (auto simp: BasicSolve_def split: if_splits)
  from assms(3) have srt: "\<And>X. set (srt X) \<subseteq> set X" by blast
  from BasicSolve_sound [OF assms(2) N srt, of base_state] assms(4,5) show ?thesis by auto
qed

theorem BasicSolve_solutions_valid_witness:
  "BasicSolve row_sort eh_16_1 shifted_state = Inr {[1, 2]}
   \<and> IsValidSolution eh_16_1 shifted_state [1, 2] = Inr True"
proof -
  have "IsValidSolution eh_16_1 shifted_state [1, 2] = Inr True"
    by (rule BasicSolve_solutions_valid [of eh_16_1 row_sort shifted_state "{[1, 2]}"])
       (simp_all add: params_invariant_examples set_row_sort BasicSolve_shifted)
  with BasicSolve_shifted show ?thesis by simp
qed

text \<open>
  C2. \<^verbatim>\<open>BasicSolve\<close> and \<^verbatim>\<open>OptimisedSolve\<close> return the same set. For \<open>n = 16\<close>, \<open>k = 1\<close>
  and the second state the basic solver returns the one solution \<open>[1, 2]\<close> (the two
  leaves with equal digests). The optimised solver finds the partial solution \<open>(0, 1)\<close>,
  rebuilds the lists from the leaves \<open>0, 1\<close> and \<open>4, 5\<close> (C3), merges the rows of the first
  list with each other (\<^verbatim>\<open>X[v][jChecked+m]\<close> where \<^verbatim>\<open>X[v+1][jChecked+m]\<close> is tested) and
  records every merged row without testing that what is left of its hash is zero.
\<close>

theorem solvers_differ:
  "BasicSolve row_sort eh_16_1 shifted_state = Inr {[1, 2]}
   \<and> OptimisedSolve row_sort row_sort eh_16_1 shifted_state = Some (Inr {[0, 0], [0, 1], [1, 1]})
   \<and> Equihash_ctor 16 1 = Inr eh_16_1
   \<and> {[1, 2 :: eh_index]} \<noteq> {[0, 0], [0, 1], [1, 1]}"
proof -
  have "Equihash_ctor 16 1 = Inr eh_16_1"
    using Equihash_ctor_int_range [of 16 1] by (simp add: params_invariant_examples eh_16_1_def)
  with BasicSolve_shifted OptimisedSolve_shifted show ?thesis by auto
qed

text \<open>
  C8. Every solution \<^verbatim>\<open>BasicSolve\<close> returns has \<open>2^k\<close> indices, pairwise distinct and
  below \<open>2^(N+1)\<close>. The length is wrong for \<open>k = 0\<close>, which the constructor accepts: the
  rounds are skipped and the final round still merges two leaves. For \<open>n = 8\<close>, \<open>k = 0\<close>
  and the all-zero state the solver returns at least one solution and each one has two
  indices, not \<open>2^0 = 1\<close>; by \<open>BasicSolve_zero_any_sort\<close> that is so for every order in
  which the sort leaves the equal rows.
\<close>

theorem solution_size_counterexample:
  "\<not> isl (BasicSolve row_sort eh_8_0 zero_state)
   \<and> length ` projr (BasicSolve row_sort eh_8_0 zero_state) = {2}
   \<and> Equihash_ctor 8 0 = Inr eh_8_0
   \<and> (2 :: nat) \<noteq> 2 ^ unat (param_k eh_8_0)"
proof -
  have "Equihash_ctor 8 0 = Inr eh_8_0"
    using Equihash_ctor_int_range [of 8 0] by (simp add: params_invariant_examples eh_8_0_def)
  moreover from BasicSolve_zero_any_sort [of row_sort, OF mset_row_sort]
  obtain S where "BasicSolve row_sort eh_8_0 zero_state = Inr S" "length ` S = {2}" by blast
  ultimately show ?thesis by simp
qed

text \<open>
  C8, amended. For parameters that satisfy the invariants and any \<^verbatim>\<open>std::sort\<close> that
  returns rows of its input, the indices of every solution \<^verbatim>\<open>BasicSolve\<close> returns are
  pairwise distinct and each below \<open>2^(N+1)\<close>; there are exactly \<open>2^k\<close> of them when
  \<open>k \<ge> 1\<close>, and exactly two when \<open>k = 0\<close>.
\<close>

theorem BasicSolve_solution_size:
  assumes "params_invariant (param_n eh) (param_k eh)"
    and "\<forall>X. set (srt X) \<subseteq> set X"
    and "BasicSolve srt eh base_state = Inr S"
    and "sol \<in> S"
  shows "length sol = (if param_k eh = 0 then 2 else 2 ^ unat (param_k eh)) \<and> distinct sol
     \<and> (\<forall>i \<in> set sol. unat i < 2 ^ (CollisionBitLength eh + 1))"
proof (cases "param_k eh = 0")
  case True
  from assms(3) have N: "CollisionBitLength eh + 1 < 32"
    by (auto simp: BasicSolve_def split: if_splits)
  from assms(2) have srt: "\<And>X. set (srt X) \<subseteq> set X" by blast
  from True have k: "unat (param_k eh) = 0" by simp
  from BasicSolve_sound_zero [OF k N srt, of base_state] assms(3,4) True show ?thesis by auto
next
  case False
  from assms(3) have N: "CollisionBitLength eh + 1 < 32"
    by (auto simp: BasicSolve_def split: if_splits)
  from assms(2) have srt: "\<And>X. set (srt X) \<subseteq> set X" by blast
  from False have k: "1 \<le> unat (param_k eh)" by (simp add: unat_gt_0 Suc_le_eq)
  from BasicSolve_sound [OF k N srt, of base_state] assms(3,4) False show ?thesis by auto
qed

theorem BasicSolve_solution_size_witness:
  "BasicSolve row_sort eh_16_1 shifted_state = Inr {[1, 2]}
   \<and> length [1, 2 :: eh_index] = 2 ^ unat (param_k eh_16_1) \<and> distinct [1, 2 :: eh_index]
   \<and> unat (1 :: eh_index) < 2 ^ (CollisionBitLength eh_16_1 + 1)
   \<and> unat (2 :: eh_index) < 2 ^ (CollisionBitLength eh_16_1 + 1)
   \<and> [0, 1] \<in> projr (BasicSolve row_sort eh_8_0 zero_state)
   \<and> param_k eh_8_0 = 0
   \<and> length [0, 1 :: eh_index] = 2 \<and> distinct [0, 1 :: eh_index]
   \<and> unat (0 :: eh_index) < 2 ^ (CollisionBitLength eh_8_0 + 1)
   \<and> unat (1 :: eh_index) < 2 ^ (CollisionBitLength eh_8_0 + 1)"
proof -
  have a: "length [1, 2 :: eh_index] =
        (if param_k eh_16_1 = 0 then 2 else 2 ^ unat (param_k eh_16_1))
     \<and> distinct [1, 2 :: eh_index]
     \<and> (\<forall>i \<in> set [1, 2 :: eh_index]. unat i < 2 ^ (CollisionBitLength eh_16_1 + 1))"
    by (rule BasicSolve_solution_size [of eh_16_1 row_sort shifted_state "{[1, 2]}"])
       (simp_all add: params_invariant_examples set_row_sort BasicSolve_shifted)
  have m: "[0, 1] \<in> projr (BasicSolve row_sort eh_8_0 zero_state)"
    using BasicSolve_zero_member by simp
  have b: "length [0, 1 :: eh_index] =
        (if param_k eh_8_0 = 0 then 2 else 2 ^ unat (param_k eh_8_0))
     \<and> distinct [0, 1 :: eh_index]
     \<and> (\<forall>i \<in> set [0, 1 :: eh_index]. unat i < 2 ^ (CollisionBitLength eh_8_0 + 1))"
  proof (rule BasicSolve_solution_size [of eh_8_0 row_sort zero_state
        "(\<lambda>i. [word_of_nat i, word_of_nat (i + 1)]) ` {0 ..< 511}"])
    show "params_invariant (param_n eh_8_0) (param_k eh_8_0)"
      by (simp add: params_invariant_examples)
    show "\<forall>X. set (row_sort X) \<subseteq> set X" by (simp add: set_row_sort)
    show "BasicSolve row_sort eh_8_0 zero_state =
        Inr ((\<lambda>i. [word_of_nat i, word_of_nat (i + 1)]) ` {0 ..< 511})"
      by (rule BasicSolve_zero)
    show "[0, 1] \<in> (\<lambda>i. [word_of_nat i, word_of_nat (i + 1) :: eh_index]) ` {0 ..< 511}"
      using m unfolding BasicSolve_zero by simp
  qed
  from a b m BasicSolve_shifted show ?thesis by simp
qed

end
